theory Spec2Isabelle
  imports Complex_Main "HOL-Library.Sublist"
begin

section \<open>Data model\<close>

text \<open>
  Players are identified by the strings \<^verbatim>\<open>'X'\<close> (black) and \<^verbatim>\<open>'O'\<close> (white).
\<close>

datatype color = Black | White

text \<open>The exceptions that the search code of \<^verbatim>\<open>main.py\<close> can raise.\<close>

datatype error = AttributeError | ValueError | IndexError

text \<open>
  The board class lives in \<^verbatim>\<open>game.py\<close>/\<^verbatim>\<open>board.py\<close>, outside the repository's source
  under study, so the three board methods that the search calls are parameters:
  \<^verbatim>\<open>get_legal_actions(color)\<close>, \<^verbatim>\<open>_move(action, color)\<close> and \<^verbatim>\<open>get_winner()\<close>
  (winner 0: black, 1: white, 2: draw, together with the lead of the winner).
\<close>

record ('b, 'm) game =
  get_legal_actions :: "'b \<Rightarrow> color \<Rightarrow> 'm list"
  move :: "'m \<Rightarrow> color \<Rightarrow> 'b \<Rightarrow> 'b"
  get_winner :: "'b \<Rightarrow> nat \<times> int"

text \<open>
  Boards are mutable objects: the store of boards is a list, a board reference is an
  index into it. \<^verbatim>\<open>deepcopy\<close> allocates a new cell, \<^verbatim>\<open>_move\<close> overwrites a cell.
\<close>

definition deepcopy :: "nat \<Rightarrow> 'b list \<Rightarrow> nat \<times> 'b list" where
  "deepcopy a bs = (length bs, bs @ [bs ! a])"

definition board_move :: "('b, 'm) game \<Rightarrow> nat \<Rightarrow> 'm \<Rightarrow> color \<Rightarrow> 'b list \<Rightarrow> 'b list" where
  "board_move g a act c bs = bs[a := move g act c (bs ! a)]"

text \<open>
  Class \<^verbatim>\<open>Node\<close>. Nodes are objects too: the arena of nodes is a list, \<^verbatim>\<open>parent\<close> and
  \<^verbatim>\<open>children\<close> hold indices into it, \<^verbatim>\<open>now_board\<close> a board reference.
\<close>

record 'm node =
  visits :: nat
  reward :: real
  now_board :: nat
  children :: "nat list"
  parent :: "nat option"
  action :: "'m option"
  color :: color

definition Node :: "nat \<Rightarrow> nat option \<Rightarrow> 'm option \<Rightarrow> color \<Rightarrow> 'm node" where
  "Node b p a c =
     \<lparr>visits = 0, reward = 0, now_board = b, children = [], parent = p, action = a, color = c\<rparr>"

text \<open>\<^verbatim>\<open>sys.maxsize\<close> of a 64-bit CPython.\<close>

definition maxsize :: int where
  "maxsize = 2 ^ 63 - 1"

text \<open>
  \<^verbatim>\<open>Node.get_ucb\<close>. Python floats are read as reals. \<^verbatim>\<open>self.parent.visits\<close> on the root
  raises AttributeError, \<^verbatim>\<open>math.log(0)\<close> and \<^verbatim>\<open>math.sqrt\<close> of a negative number raise
  ValueError.
\<close>

definition get_ucb :: "'m node list \<Rightarrow> nat \<Rightarrow> real \<Rightarrow> error + real" where
  "get_ucb ns n ucb_param =
     (if visits (ns ! n) = 0 then Inr (real_of_int maxsize)
      else case parent (ns ! n) of
        None \<Rightarrow> Inl AttributeError
      | Some p \<Rightarrow>
          if visits (ns ! p) = 0 then Inl ValueError
          else if 2 * ln (real (visits (ns ! p))) / real (visits (ns ! n)) < 0 then Inl ValueError
          else
            let explore = sqrt (2 * ln (real (visits (ns ! p))) / real (visits (ns ! n)))
            in Inr (reward (ns ! n) / real (visits (ns ! n)) + ucb_param * explore))"

definition add_child :: "nat \<Rightarrow> nat \<Rightarrow> 'm \<Rightarrow> color \<Rightarrow> 'm node list \<Rightarrow> 'm node list" where
  "add_child n child_now_board act col ns =
     (let child_node = Node child_now_board (Some n) (Some act) col;
          ns1 = ns @ [child_node]
      in ns1[n := (ns1 ! n)\<lparr>children := children (ns1 ! n) @ [length ns]\<rparr>])"

definition full_expanded :: "'m node list \<Rightarrow> nat \<Rightarrow> bool" where
  "full_expanded ns n =
     (if children (ns ! n) = [] then False
      else list_all (\<lambda>kid. visits (ns ! kid) \<noteq> 0) (children (ns ! n)))"

section \<open>The engine\<close>

record aiplayer =
  max_times :: nat
  ucb_param :: real
  pcolor :: color

definition AIPlayer :: "color \<Rightarrow> aiplayer" where
  "AIPlayer c = \<lparr>max_times = 50, ucb_param = 1.5, pcolor = c\<rparr>"

definition opponent :: "color \<Rightarrow> color" where
  "opponent c = (if c = Black then White else Black)"

text \<open>
  The loop that both \<^verbatim>\<open>uct\<close> and \<^verbatim>\<open>select\<close> run over a list of children, carrying
  \<^verbatim>\<open>max_node\<close> and \<^verbatim>\<open>max_ucb\<close>.
\<close>

fun max_child ::
  "'m node list \<Rightarrow> real \<Rightarrow> nat list \<Rightarrow> nat option \<times> real \<Rightarrow> error + (nat option \<times> real)" where
  "max_child ns c [] acc = Inr acc"
| "max_child ns c (child # rest) (max_node, max_ucb) =
     (case get_ucb ns child c of
        Inl e \<Rightarrow> Inl e
      | Inr child_ucb \<Rightarrow>
          if max_ucb < child_ucb then max_child ns c rest (Some child, child_ucb)
          else max_child ns c rest (max_node, max_ucb))"

text \<open>The last loop of \<^verbatim>\<open>select\<close>; falling off its end returns Python's \<^verbatim>\<open>None\<close>.\<close>

fun first_unvisited :: "'m node list \<Rightarrow> nat list \<Rightarrow> nat option" where
  "first_unvisited ns [] = None"
| "first_unvisited ns (kid # rest) =
     (if visits (ns ! kid) = 0 then Some kid else first_unvisited ns rest)"

text \<open>
  \<^verbatim>\<open>AIPlayer.select\<close>. The recursion follows references, so it is a partial function:
  \<open>None\<close> stands for a recursion that never ends. \<^verbatim>\<open>select(None)\<close> raises
  AttributeError at \<^verbatim>\<open>node.children\<close>.
\<close>

partial_function (option) select ::
  "real \<Rightarrow> 'm node list \<Rightarrow> nat \<Rightarrow> (error + nat option) option" where
  "select c ns n =
     (if children (ns ! n) = [] then Some (Inr (Some n))
      else if full_expanded ns n then
        (case max_child ns c (children (ns ! n)) (None, - real_of_int maxsize) of
           Inl e \<Rightarrow> Some (Inl e)
         | Inr (None, max_ucb) \<Rightarrow> Some (Inl AttributeError)
         | Inr (Some max_node, max_ucb) \<Rightarrow> select c ns max_node)
      else Some (Inr (first_unvisited ns (children (ns ! n)))))"

text \<open>\<^verbatim>\<open>AIPlayer.extend\<close>: the body of its loop over the legal actions, then the method.\<close>

definition extend_step ::
  "('b, 'm) game \<Rightarrow> nat \<Rightarrow> color \<Rightarrow> 'm \<Rightarrow> 'b list \<times> 'm node list \<Rightarrow> 'b list \<times> 'm node list" where
  "extend_step g n new_color act s =
     (case s of (bs, ns) \<Rightarrow>
        let (new_board, bs1) = deepcopy (now_board (ns ! n)) bs;
            bs2 = board_move g new_board act (color (ns ! n)) bs1
        in (bs2, add_child n new_board act new_color ns))"

definition extend ::
  "('b, 'm) game \<Rightarrow> nat \<Rightarrow> 'b list \<times> 'm node list \<Rightarrow> nat \<times> 'b list \<times> 'm node list" where
  "extend g n s =
     (case s of (bs, ns) \<Rightarrow>
        if visits (ns ! n) = 0 then (n, bs, ns)
        else
          let new_color = (if color (ns ! n) = Black then White else Black);
              acts = get_legal_actions g (bs ! now_board (ns ! n)) (color (ns ! n));
              (bs', ns') = fold (extend_step g n new_color) acts (bs, ns)
          in if children (ns' ! n) = [] then (n, bs', ns')
             else (children (ns' ! n) ! 0, bs', ns'))"

definition game_over :: "('b, 'm) game \<Rightarrow> 'b \<Rightarrow> bool" where
  "game_over g board =
     (let b_list = get_legal_actions g board Black;
          w_list = get_legal_actions g board White
      in b_list = [] \<and> w_list = [])"

text \<open>
  \<^verbatim>\<open>random.choice\<close>: the generator is a sequence of draws, of which the first is used
  and dropped. On an empty list it raises IndexError.
\<close>

definition choice :: "'a list \<Rightarrow> (nat \<Rightarrow> nat) \<Rightarrow> (error + 'a) \<times> (nat \<Rightarrow> nat)" where
  "choice xs rnd =
     (if xs = [] then (Inl IndexError, rnd)
      else (Inr (xs ! (rnd 0 mod length xs)), \<lambda>i. rnd (Suc i)))"

text \<open>
  The body of the loop of \<^verbatim>\<open>AIPlayer.stimulate\<close>. \<open>nb\<close> is \<^verbatim>\<open>node.now_board\<close>, \<open>b\<close> the
  local \<^verbatim>\<open>board\<close>; the locals \<^verbatim>\<open>color\<close> and the generator are updated. The result names
  the action passed to \<^verbatim>\<open>board._move\<close> and the colour it was passed with.
\<close>

definition stimulate_body ::
  "('b, 'm) game \<Rightarrow> nat \<Rightarrow> nat \<Rightarrow> 'b list \<times> color \<times> (nat \<Rightarrow> nat) \<Rightarrow>
     (error + 'm \<times> color) \<times> 'b list \<times> color \<times> (nat \<Rightarrow> nat)" where
  "stimulate_body g nb b s =
     (case s of (bs, col, rnd) \<Rightarrow>
        let action_list = get_legal_actions g (bs ! nb) col
        in if action_list \<noteq> [] then
             (case choice action_list rnd of
                (Inl e, rnd') \<Rightarrow> (Inl e, bs, col, rnd')
              | (Inr act, rnd') \<Rightarrow>
                  (Inr (act, col), board_move g b act col bs, opponent col, rnd'))
           else
             let col1 = opponent col;
                 action_list = get_legal_actions g (bs ! nb) col1
             in (case choice action_list rnd of
                   (Inl e, rnd') \<Rightarrow> (Inl e, bs, col1, rnd')
                 | (Inr act, rnd') \<Rightarrow>
                     (Inr (act, col1), board_move g b act col1 bs, opponent col1, rnd')))"

function stimulate_loop ::
  "('b, 'm) game \<Rightarrow> nat \<Rightarrow> nat \<Rightarrow> 'b list \<times> color \<times> nat \<times> (nat \<Rightarrow> nat) \<Rightarrow>
     (error + unit) \<times> 'b list \<times> color \<times> nat \<times> (nat \<Rightarrow> nat)" where
  "stimulate_loop g nb b (bs, col, count, rnd) =
     (if \<not> game_over g (bs ! b) \<and> count < 50 then
        (case stimulate_body g nb b (bs, col, rnd) of
           (Inl e, bs', col', rnd') \<Rightarrow> (Inl e, bs', col', count, rnd')
         | (Inr applied, bs', col', rnd') \<Rightarrow>
             stimulate_loop g nb b (bs', col', count + 1, rnd'))
      else (Inr (), bs, col, count, rnd))"
  by pat_completeness auto
termination
  by (relation "measure (\<lambda>(g, nb, b, bs, col, count, rnd). 50 - count)") auto

definition stimulate ::
  "('b, 'm) game \<Rightarrow> aiplayer \<Rightarrow> nat \<Rightarrow> 'b list \<times> 'm node list \<times> (nat \<Rightarrow> nat) \<Rightarrow>
     (error + int) \<times> 'b list \<times> (nat \<Rightarrow> nat)" where
  "stimulate g self n s =
     (case s of (bs, ns, rnd) \<Rightarrow>
        case deepcopy (now_board (ns ! n)) bs of (board, bs1) \<Rightarrow>
          (case stimulate_loop g (now_board (ns ! n)) board (bs1, color (ns ! n), 0, rnd) of
             (Inl e, bs2, col, count, rnd2) \<Rightarrow> (Inl e, bs2, rnd2)
           | (Inr u, bs2, col, count, rnd2) \<Rightarrow>
               (let (winner, diff) = get_winner g (bs2 ! board);
                    r0 = (if winner = 2 then 0
                          else if winner = 0 then 10 + diff
                          else - (10 + diff));
                    r = (if pcolor self = Black then - r0 else r0)
                in (Inr r, bs2, rnd2))))"

text \<open>
  \<^verbatim>\<open>AIPlayer.backup\<close>: a loop along the \<^verbatim>\<open>parent\<close> references, which need not end in an
  arbitrary arena; \<open>None\<close> stands for a loop that never ends.
\<close>

partial_function (option) backup ::
  "aiplayer \<Rightarrow> nat option \<Rightarrow> int \<Rightarrow> 'm node list \<Rightarrow> 'm node list option" where
  "backup self nd r ns =
     (case nd of
        None \<Rightarrow> Some ns
      | Some i \<Rightarrow>
          let ns1 = ns[i := (ns ! i)\<lparr>visits := visits (ns ! i) + 1\<rparr>];
              ns2 = (if color (ns1 ! i) = pcolor self
                     then ns1[i := (ns1 ! i)\<lparr>reward := reward (ns1 ! i) + real_of_int r\<rparr>]
                     else ns1[i := (ns1 ! i)\<lparr>reward := reward (ns1 ! i) - real_of_int r\<rparr>])
          in backup self (parent (ns2 ! i)) r ns2)"

text \<open>
  One pass of the loop of \<^verbatim>\<open>AIPlayer.uct\<close>. An exception leaves the objects as they
  are at that moment. \<^verbatim>\<open>extend(None)\<close> raises AttributeError at \<^verbatim>\<open>node.visits\<close>.
\<close>

definition uct_iter ::
  "('b, 'm) game \<Rightarrow> aiplayer \<Rightarrow> nat \<Rightarrow> 'b list \<times> 'm node list \<times> (nat \<Rightarrow> nat) \<Rightarrow>
     ((error + unit) \<times> 'b list \<times> 'm node list \<times> (nat \<Rightarrow> nat)) option" where
  "uct_iter g self root_node s =
     (case s of (bs, ns, rnd) \<Rightarrow>
        (case select (ucb_param self) ns root_node of
           None \<Rightarrow> None
         | Some (Inl e) \<Rightarrow> Some (Inl e, bs, ns, rnd)
         | Some (Inr None) \<Rightarrow> Some (Inl AttributeError, bs, ns, rnd)
         | Some (Inr (Some selected_node)) \<Rightarrow>
             (case extend g selected_node (bs, ns) of (leaf_node, bs1, ns1) \<Rightarrow>
                (case stimulate g self leaf_node (bs1, ns1, rnd) of
                   (Inl e, bs2, rnd2) \<Rightarrow> Some (Inl e, bs2, ns1, rnd2)
                 | (Inr r, bs2, rnd2) \<Rightarrow>
                     (case backup self (Some leaf_node) r ns1 of
                        None \<Rightarrow> None
                      | Some ns2 \<Rightarrow> Some (Inr (), bs2, ns2, rnd2))))))"

fun uct_loop ::
  "('b, 'm) game \<Rightarrow> aiplayer \<Rightarrow> nat \<Rightarrow> nat \<Rightarrow> 'b list \<times> 'm node list \<times> (nat \<Rightarrow> nat) \<Rightarrow>
     ((error + unit) \<times> 'b list \<times> 'm node list \<times> (nat \<Rightarrow> nat)) option" where
  "uct_loop g self 0 root_node s = Some (Inr (), s)"
| "uct_loop g self (Suc k) root_node s =
     (case uct_iter g self root_node s of
        None \<Rightarrow> None
      | Some (Inl e, s') \<Rightarrow> Some (Inl e, s')
      | Some (Inr u, s') \<Rightarrow> uct_loop g self k root_node s')"

text \<open>
  \<^verbatim>\<open>AIPlayer.uct\<close>: the iterations, then the choice among the children of the root;
  \<^verbatim>\<open>max_node.action\<close> raises AttributeError when \<^verbatim>\<open>max_node\<close> is still \<^verbatim>\<open>None\<close>.
\<close>

definition uct ::
  "('b, 'm) game \<Rightarrow> aiplayer \<Rightarrow> nat \<Rightarrow> nat \<Rightarrow> 'b list \<times> 'm node list \<times> (nat \<Rightarrow> nat) \<Rightarrow>
     ((error + 'm option) \<times> 'b list \<times> 'm node list \<times> (nat \<Rightarrow> nat)) option" where
  "uct g self n_times root_node s =
     (case uct_loop g self n_times root_node s of
        None \<Rightarrow> None
      | Some (Inl e, s') \<Rightarrow> Some (Inl e, s')
      | Some (Inr u, bs, ns, rnd) \<Rightarrow>
          (case max_child ns (ucb_param self) (children (ns ! root_node)) (None, - real_of_int maxsize) of
             Inl e \<Rightarrow> Some (Inl e, bs, ns, rnd)
           | Inr (None, max_ucb) \<Rightarrow> Some (Inl AttributeError, bs, ns, rnd)
           | Inr (Some max_node, max_ucb) \<Rightarrow> Some (Inr (action (ns ! max_node)), bs, ns, rnd)))"

text \<open>
  \<^verbatim>\<open>AIPlayer.get_move\<close>: \<open>board\<close> is the reference to the caller's board. The tree is
  built in a fresh arena, whose node 0 is the root.
\<close>

definition get_move ::
  "('b, 'm) game \<Rightarrow> aiplayer \<Rightarrow> nat \<Rightarrow> 'b list \<times> (nat \<Rightarrow> nat) \<Rightarrow>
     ((error + 'm option) \<times> 'b list \<times> 'm node list \<times> (nat \<Rightarrow> nat)) option" where
  "get_move g self board s =
     (case s of (bs, rnd) \<Rightarrow>
        let (root_board, bs1) = deepcopy board bs;
            root_node = Node root_board None None (pcolor self)
        in uct g self (max_times self) 0 (bs1, [root_node], rnd))"

section \<open>A board to run the engine on: Reversi on a single row\<close>

text \<open>
  An instance of the board parameter, used to evaluate the engine on concrete positions:
  the rules of Reversi on one row of squares. A disc may be placed on an empty square
  when it brackets a run of opposing discs on at least one side; the bracketed discs
  change colour. A placement that brackets nothing leaves the board as it is.
\<close>

fun bracket :: "color \<Rightarrow> color option list \<Rightarrow> nat option" where
  "bracket c [] = None"
| "bracket c (None # xs) = None"
| "bracket c (Some d # xs) = (if d = c then Some 0 else map_option Suc (bracket c xs))"

definition flips :: "color \<Rightarrow> color option list \<Rightarrow> nat" where
  "flips c xs = (case bracket c xs of None \<Rightarrow> 0 | Some k \<Rightarrow> k)"

definition row_legal :: "color option list \<Rightarrow> color \<Rightarrow> nat \<Rightarrow> bool" where
  "row_legal b c i =
     (b ! i = None \<and> (0 < flips c (drop (Suc i) b) \<or> 0 < flips c (rev (take i b))))"

definition row_actions :: "color option list \<Rightarrow> color \<Rightarrow> nat list" where
  "row_actions b c = filter (row_legal b c) [0..<length b]"

definition row_move :: "nat \<Rightarrow> color \<Rightarrow> color option list \<Rightarrow> color option list" where
  "row_move i c b =
     (if row_legal b c i then
        let r = flips c (drop (Suc i) b); l = flips c (rev (take i b))
        in map (\<lambda>j. if i - l \<le> j \<and> j \<le> i + r then Some c else b ! j) [0..<length b]
      else b)"

definition row_winner :: "color option list \<Rightarrow> nat \<times> int" where
  "row_winner b =
     (let black_count = count_list b (Some Black); white_count = count_list b (Some White)
      in if white_count < black_count then (0, int black_count - int white_count)
         else if black_count < white_count then (1, int white_count - int black_count)
         else (2, 0))"

definition row_game :: "(color option list, nat) game" where
  "row_game = \<lparr>get_legal_actions = row_actions, move = row_move, get_winner = row_winner\<rparr>"

text \<open>Positions and a generator for running the engine.\<close>

definition zero_draws :: "nat \<Rightarrow> nat" where
  "zero_draws = (\<lambda>i. 0)"

definition pass_row :: "color option list" where
  "pass_row = [None, Some Black, Some White, Some White]"

definition full_row :: "color option list" where
  "full_row = [Some Black, Some Black, Some White]"

definition two_groups_row :: "color option list" where
  "two_groups_row =
     [None, Some Black, Some White, None, None, Some White, Some Black, None]"

definition after_first :: "color option list" where
  "after_first =
     [None, Some Black, Some Black, Some Black, None, Some White, Some Black, None]"

section \<open>Describing the tree\<close>

text \<open>
  The arenas that the engine builds: a parent is created before its children, so the
  reference to a parent is smaller than the reference to the node.
\<close>

definition parents_ok :: "'m node list \<Rightarrow> bool" where
  "parents_ok ns =
     list_all (\<lambda>i. case parent (ns ! i) of None \<Rightarrow> True | Some p \<Rightarrow> p < i) [0..<length ns]"

text \<open>
  The nodes from \<open>i\<close> along the \<^verbatim>\<open>parent\<close> references, up to and including the node
  that has no parent.
\<close>

function chain :: "'m node list \<Rightarrow> nat \<Rightarrow> nat list" where
  "chain ns i =
     i # (case parent (ns ! i) of None \<Rightarrow> [] | Some p \<Rightarrow> if p < i then chain ns p else [])"
  by pat_completeness auto
termination
  by (relation "measure (\<lambda>(ns, i). i)") auto


text \<open>A root with two children, as \<^verbatim>\<open>extend\<close> builds it.\<close>

definition tree3 :: "nat node list" where
  "tree3 =
     [(Node 0 None None Black)\<lparr>children := [1, 2]\<rparr>,
      Node 1 (Some 0) (Some 3) White,
      Node 2 (Some 0) (Some 4) White]"

text \<open>What one pass of the loop of \<^verbatim>\<open>backup\<close> does to the node it visits.\<close>

definition backup_node :: "aiplayer \<Rightarrow> int \<Rightarrow> 'm node \<Rightarrow> 'm node" where
  "backup_node self r nd =
     nd\<lparr>visits := visits nd + 1,
        reward := (if color nd = pcolor self then reward nd + real_of_int r
                   else reward nd - real_of_int r)\<rparr>"

text \<open>An arena that holds only a root, which has been visited once.\<close>

definition visited_root :: "nat node list" where
  "visited_root = [(Node 0 None None Black)\<lparr>visits := 1, reward := 3\<rparr>]"

text \<open>
  The states that the operations of the engine reach from a root that \<^verbatim>\<open>get_move\<close> has
  just created: the boards, the nodes and the random generator.
\<close>

inductive reachable ::
  "('b, 'm) game \<Rightarrow> aiplayer \<Rightarrow> 'b list \<times> 'm node list \<times> (nat \<Rightarrow> nat) \<Rightarrow> bool"
  for g :: "('b, 'm) game" and self :: aiplayer where
  fresh_root:
    "board < length bs \<Longrightarrow> deepcopy board bs = (root_board, bs1) \<Longrightarrow>
     reachable g self (bs1, [Node root_board None None (pcolor self)], rnd)"
| by_select:
    "reachable g self (bs, ns, rnd) \<Longrightarrow> n < length ns \<Longrightarrow> select c ns n = Some res \<Longrightarrow>
     reachable g self (bs, ns, rnd)"
| by_extend:
    "reachable g self (bs, ns, rnd) \<Longrightarrow> n < length ns \<Longrightarrow>
     extend g n (bs, ns) = (leaf, bs', ns') \<Longrightarrow>
     reachable g self (bs', ns', rnd)"
| by_stimulate:
    "reachable g self (bs, ns, rnd) \<Longrightarrow> n < length ns \<Longrightarrow>
     stimulate g self n (bs, ns, rnd) = (res, bs', rnd') \<Longrightarrow>
     reachable g self (bs', ns, rnd')"
| by_backup:
    "reachable g self (bs, ns, rnd) \<Longrightarrow> n < length ns \<Longrightarrow>
     backup self (Some n) r ns = Some ns' \<Longrightarrow>
     reachable g self (bs, ns', rnd)"

text \<open>What every such arena satisfies.\<close>

definition tree_inv :: "'b list \<Rightarrow> 'm node list \<Rightarrow> bool" where
  "tree_inv bs ns =
     (parents_ok ns \<and>
      (\<forall>i < length ns.
         now_board (ns ! i) < length bs \<and>
         (\<forall>p. parent (ns ! i) = Some p \<longrightarrow> color (ns ! i) = opponent (color (ns ! p))) \<and>
         (visits (ns ! i) = 0 \<longrightarrow> reward (ns ! i) = 0)))"

text \<open>
  The tree after the second and after the third pass of the loop of \<^verbatim>\<open>uct\<close>, once the
  root has been expanded into two children.
\<close>

definition round2_tree :: "nat node list" where
  "round2_tree =
     [(Node 1 None None Black)\<lparr>visits := 2, reward := 3, children := [1, 2]\<rparr>,
      (Node 2 (Some 0) (Some 3) White)\<lparr>visits := 1, reward := 11\<rparr>,
      Node 3 (Some 0) (Some 4) White]"

definition round3_tree :: "nat node list" where
  "round3_tree =
     [(Node 1 None None Black)\<lparr>visits := 3, reward := - 11, children := [1, 2]\<rparr>,
      (Node 2 (Some 0) (Some 3) White)\<lparr>visits := 1, reward := 11\<rparr>,
      (Node 3 (Some 0) (Some 4) White)\<lparr>visits := 1, reward := 14\<rparr>]"

text \<open>
  The root that \<^verbatim>\<open>get_move\<close> creates on board \<open>a\<close> for colour \<open>c\<close>, after \<open>v\<close> visits with
  the reward \<open>rw\<close>, as long as it has no children.
\<close>

definition lone_root :: "nat \<Rightarrow> color \<Rightarrow> nat \<Rightarrow> real \<Rightarrow> 'm node" where
  "lone_root a c v rw = (Node a None None c)\<lparr>visits := v, reward := rw\<rparr>"

text \<open>
  In the arenas that the engine builds, the children of a node are younger than the
  node and exist.
\<close>

definition kids_ok :: "'m node list \<Rightarrow> bool" where
  "kids_ok ns =
     list_all (\<lambda>i. list_all (\<lambda>k. i < k \<and> k < length ns) (children (ns ! i))) [0..<length ns]"

text \<open>
  What the engine keeps true of its boards and nodes: the above, and that a node
  without visits has no children.
\<close>

definition engine_inv :: "'b list \<Rightarrow> 'm node list \<Rightarrow> bool" where
  "engine_inv bs ns =
     (tree_inv bs ns \<and> kids_ok ns \<and>
      (\<forall>i < length ns. visits (ns ! i) = 0 \<longrightarrow> children (ns ! i) = []))"

text \<open>
  A state of the engine: the root on a copy of the caller's board, visited once and
  then expanded into its two children, with the boards of all three.
\<close>

definition grown_boards :: "color option list list" where
  "grown_boards =
     [two_groups_row, two_groups_row, after_first,
      [None, Some Black, Some White, None, Some Black, Some Black, Some Black, None]]"

definition grown_tree :: "nat node list" where
  "grown_tree =
     [\<lparr>visits = 1, reward = 3, now_board = 1, children = [1, 2], parent = None, action = None,
        color = Black\<rparr>,
      \<lparr>visits = 0, reward = 0, now_board = 2, children = [], parent = Some 0, action = Some 3,
        color = White\<rparr>,
      \<lparr>visits = 0, reward = 0, now_board = 3, children = [], parent = Some 0, action = Some 4,
        color = White\<rparr>]"

text \<open>
  How the boards and the nodes may change while the engine runs: boards are only added
  to the store, the existing ones keeping their value; nodes are only added, and every
  existing node keeps its reference to its board.
\<close>

definition grows :: "'b list \<times> 'm node list \<Rightarrow> 'b list \<times> 'm node list \<Rightarrow> bool" where
  "grows s s' =
     (prefix (fst s) (fst s') \<and> length (snd s) \<le> length (snd s') \<and>
      list_all (\<lambda>i. now_board (snd s' ! i) = now_board (snd s ! i)) [0..<length (snd s)])"

section \<open>The rollout\<close>

lemmas row_defs = row_game_def row_actions_def row_legal_def row_move_def row_winner_def flips_def
  game_over_def

lemmas run_defs = stimulate_def deepcopy_def Node_def stimulate_loop.simps stimulate_body_def
  choice_def board_move_def opponent_def AIPlayer_def Let_def upt_conv_Cons zero_draws_def

declare stimulate_loop.simps [simp del]

lemma choice_nonempty:
  "xs \<noteq> [] \<Longrightarrow> \<exists>a. a \<in> set xs \<and> choice xs rnd = (Inr a, \<lambda>i. rnd (Suc i))"
  by (simp add: choice_def)

lemma board_move_length [simp]: "length (board_move g a act c bs) = length bs"
  by (simp add: board_move_def)

lemma board_move_other [simp]: "a' \<noteq> a \<Longrightarrow> board_move g a act c bs ! a' = bs ! a'"
  by (simp add: board_move_def)

lemma stimulate_body_frame:
  assumes "stimulate_body g nb b (bs, col, rnd) = (res, bs', col', rnd')"
  shows "length bs' = length bs \<and> (\<forall>a. a \<noteq> b \<longrightarrow> bs' ! a = bs ! a)"
  using assms
  by (auto simp: stimulate_body_def Let_def choice_def split: if_splits)

lemma stimulate_body_ok:
  assumes "\<not> game_over g (bs ! nb)"
  shows "\<exists>act c bs' col' rnd'. stimulate_body g nb b (bs, col, rnd) = (Inr (act, c), bs', col', rnd')
           \<and> act \<in> set (get_legal_actions g (bs ! nb) c) \<and> col' = opponent c"
  using assms
  by (cases col) (auto simp: stimulate_body_def Let_def choice_def game_over_def opponent_def)

lemma stimulate_loop_frame:
  "stimulate_loop g nb b (bs, col, count, rnd) = (res, bs', col', count', rnd') \<Longrightarrow>
     length bs' = length bs \<and> (\<forall>a. a \<noteq> b \<longrightarrow> bs' ! a = bs ! a) \<and> (count \<le> 50 \<longrightarrow> count' \<le> 50)"
proof (induction g nb b "(bs, col, count, rnd)" arbitrary: bs col count rnd rule: stimulate_loop.induct)
  case (1 g nb b bs col count rnd)
  show ?case
  proof (cases "\<not> game_over g (bs ! b) \<and> count < 50")
    case False
    with "1.prems" show ?thesis by (auto simp: stimulate_loop.simps)
  next
    case True
    obtain r1 bs1 col1 rnd1 where body: "stimulate_body g nb b (bs, col, rnd) = (r1, bs1, col1, rnd1)"
      by (metis prod_cases4)
    note fr = stimulate_body_frame [OF body]
    show ?thesis
    proof (cases r1)
      case (Inl e)
      with True body "1.prems" fr show ?thesis by (auto simp: stimulate_loop.simps)
    next
      case (Inr ap)
      with True body "1.prems"
      have rec: "stimulate_loop g nb b (bs1, col1, count + 1, rnd1) = (res, bs', col', count', rnd')"
        by (simp add: stimulate_loop.simps)
      from "1.hyps" [OF True body [symmetric] _ _ _ rec] Inr
      have "length bs' = length bs1 \<and> (\<forall>a. a \<noteq> b \<longrightarrow> bs' ! a = bs1 ! a) \<and> (count + 1 \<le> 50 \<longrightarrow> count' \<le> 50)"
        by auto
      with fr True show ?thesis by auto
    qed
  qed
qed

lemma stimulate_loop_ok:
  "\<not> game_over g (bs ! nb) \<Longrightarrow> nb \<noteq> b \<Longrightarrow>
     fst (stimulate_loop g nb b (bs, col, count, rnd)) = Inr ()"
proof (induction g nb b "(bs, col, count, rnd)" arbitrary: bs col count rnd rule: stimulate_loop.induct)
  case (1 g nb b bs col count rnd)
  show ?case
  proof (cases "\<not> game_over g (bs ! b) \<and> count < 50")
    case False
    then show ?thesis by (auto simp: stimulate_loop.simps)
  next
    case True
    from stimulate_body_ok [OF "1.prems"(1)] obtain act c bs1 col1 rnd1 where
      body: "stimulate_body g nb b (bs, col, rnd) = (Inr (act, c), bs1, col1, rnd1)"
      by blast
    note fr = stimulate_body_frame [OF body]
    with "1.prems" have nb1: "\<not> game_over g (bs1 ! nb)" by simp
    from "1.hyps" [OF True body [symmetric] refl refl refl nb1 "1.prems"(2)]
    show ?thesis using True body by (simp add: stimulate_loop.simps)
  qed
qed


lemma stimulate_loop_terminal:
  "game_over g (bs ! b) \<Longrightarrow> stimulate_loop g nb b (bs, col, count, rnd) = (Inr (), bs, col, count, rnd)"
  by (simp add: stimulate_loop.simps)

lemma stimulate_loop_start:
  assumes "a < length bs"
  shows "\<exists>bs' col' count' rnd'.
     stimulate_loop g a (length bs) (bs @ [bs ! a], c, 0, rnd) = (Inr (), bs', col', count', rnd')
     \<and> length bs' = Suc (length bs) \<and> (\<forall>i < length bs. bs' ! i = bs ! i) \<and> count' \<le> 50
     \<and> (game_over g (bs ! a) \<longrightarrow> count' = 0 \<and> bs' = bs @ [bs ! a])"
proof -
  let ?bs1 = "bs @ [bs ! a]"
  obtain res bs' col' count' rnd' where
    run: "stimulate_loop g a (length bs) (?bs1, c, 0, rnd) = (res, bs', col', count', rnd')"
    by (metis prod_cases5)
  from stimulate_loop_frame [OF run]
  have fr: "length bs' = Suc (length bs)" "\<forall>i < length bs. bs' ! i = bs ! i" "count' \<le> 50"
    by (auto simp: nth_append)
  have a1: "?bs1 ! a = bs ! a" using assms by (simp add: nth_append)
  show ?thesis
  proof (cases "game_over g (bs ! a)")
    case True
    then have "game_over g (?bs1 ! length bs)" by simp
    from stimulate_loop_terminal [OF this] run True fr show ?thesis by auto
  next
    case False
    with a1 have "\<not> game_over g (?bs1 ! a)" by simp
    from stimulate_loop_ok [OF this, of "length bs" c 0 rnd] assms run
    have "res = Inr ()" by simp
    with run fr False show ?thesis by auto
  qed
qed

lemma stimulate_unfold:
  "stimulate_loop g (now_board (ns ! n)) (length bs) (bs @ [bs ! now_board (ns ! n)], color (ns ! n), 0, rnd)
      = (Inr (), bs', col', count', rnd') \<Longrightarrow>
   stimulate g self n (bs, ns, rnd) =
     (Inr (let (winner, diff) = get_winner g (bs' ! length bs);
               r0 = (if winner = 2 then 0 else if winner = 0 then 10 + diff else - (10 + diff))
           in if pcolor self = Black then - r0 else r0), bs', rnd')"
  by (simp add: stimulate_def deepcopy_def Let_def split: prod.splits)

lemma stimulate_loop_step:
  "\<not> game_over g (bs ! b) \<Longrightarrow> count < 50 \<Longrightarrow>
   stimulate_body g nb b (bs, col, rnd) = (Inr ap, bs', col', rnd') \<Longrightarrow>
   stimulate_loop g nb b (bs, col, count, rnd) = stimulate_loop g nb b (bs', col', Suc count, rnd')"
  by (subst stimulate_loop.simps) simp


text \<open>
  C4. The rollout from any node whose board exists returns a reward and raises nothing:
  its loop ends without an exception after at most 50 passes, with no pass at all when
  neither side has a move on the board of the node. In particular \<^verbatim>\<open>random.choice\<close>
  never receives an empty list.
\<close>

theorem stimulate_total:
  assumes "now_board (ns ! n) < length bs"
  shows "\<exists>r bs' col' count' rnd'.
     stimulate_loop g (now_board (ns ! n)) (length bs)
        (bs @ [bs ! now_board (ns ! n)], color (ns ! n), 0, rnd) = (Inr (), bs', col', count', rnd')
     \<and> count' \<le> 50
     \<and> (game_over g (bs ! now_board (ns ! n)) \<longrightarrow> count' = 0)
     \<and> stimulate g self n (bs, ns, rnd) = (Inr r, bs', rnd')"
proof -
  from stimulate_loop_start [OF assms, of g "color (ns ! n)" rnd]
  obtain bs' col' count' rnd' where
    run: "stimulate_loop g (now_board (ns ! n)) (length bs)
        (bs @ [bs ! now_board (ns ! n)], color (ns ! n), 0, rnd) = (Inr (), bs', col', count', rnd')"
    and rest: "count' \<le> 50" "game_over g (bs ! now_board (ns ! n)) \<longrightarrow> count' = 0"
    by blast
  from stimulate_unfold [OF run] run rest show ?thesis by blast
qed


theorem stimulate_total_witness:
  "now_board ([Node 0 None None Black :: nat node] ! 0) < length [pass_row] \<and>
   (\<exists>r bs' col' count' rnd'.
     stimulate_loop row_game (now_board ([Node 0 None None Black :: nat node] ! 0)) (length [pass_row])
        ([pass_row] @ [[pass_row] ! now_board ([Node 0 None None Black :: nat node] ! 0)],
         color ([Node 0 None None Black :: nat node] ! 0), 0, zero_draws)
       = (Inr (), bs', col', count', rnd')
     \<and> count' \<le> 50
     \<and> (game_over row_game ([pass_row] ! now_board ([Node 0 None None Black :: nat node] ! 0))
          \<longrightarrow> count' = 0)
     \<and> stimulate row_game (AIPlayer Black) 0 ([pass_row], [Node 0 None None Black], zero_draws)
          = (Inr r, bs', rnd'))"
proof -
  have h: "now_board ([Node 0 None None Black :: nat node] ! 0) < length [pass_row]"
    by (simp add: Node_def)
  from h stimulate_total [OF h, of row_game zero_draws "AIPlayer Black"] show ?thesis
    by blast
qed

text \<open>
  C2, as the code has it. The rollout returns 0 on a draw and otherwise plus or minus
  (10 + lead): with a lead that is not negative the reward is of size 10 + lead,
  negative exactly when the colour of the engine has won and positive exactly when the
  other colour has won (winner 0 is black, 2 a draw, anything else white).
\<close>

theorem stimulate_reward:
  assumes "now_board (ns ! n) < length bs"
  shows "\<exists>r bs' rnd' winner diff.
     stimulate g self n (bs, ns, rnd) = (Inr r, bs', rnd') \<and>
     get_winner g (bs' ! length bs) = (winner, diff) \<and>
     r = (if winner = 2 then 0
          else if (winner = 0) = (pcolor self = Black) then - (10 + diff) else 10 + diff) \<and>
     (winner \<noteq> 2 \<and> 0 \<le> diff \<longrightarrow>
        \<bar>r\<bar> = 10 + diff \<and>
        (r < 0 \<longleftrightarrow> (winner = 0) = (pcolor self = Black)) \<and>
        (0 < r \<longleftrightarrow> (winner = 0) = (pcolor self \<noteq> Black)))"
proof -
  from stimulate_loop_start [OF assms, of g "color (ns ! n)" rnd]
  obtain bs' col' count' rnd' where
    run: "stimulate_loop g (now_board (ns ! n)) (length bs)
        (bs @ [bs ! now_board (ns ! n)], color (ns ! n), 0, rnd) = (Inr (), bs', col', count', rnd')"
    by blast
  obtain winner diff where w: "get_winner g (bs' ! length bs) = (winner, diff)"
    by (cases "get_winner g (bs' ! length bs)")
  let ?r = "if winner = 2 then 0
          else if (winner = 0) = (pcolor self = Black) then - (10 + diff) else 10 + diff"
  from stimulate_unfold [OF run, of self] w
  have "stimulate g self n (bs, ns, rnd) = (Inr ?r, bs', rnd')"
    by (simp add: Let_def)
  moreover have "winner \<noteq> 2 \<and> 0 \<le> diff \<longrightarrow>
        \<bar>?r\<bar> = 10 + diff \<and>
        (?r < 0 \<longleftrightarrow> (winner = 0) = (pcolor self = Black)) \<and>
        (0 < ?r \<longleftrightarrow> (winner = 0) = (pcolor self \<noteq> Black))"
    by auto
  ultimately show ?thesis using w by blast
qed

theorem stimulate_reward_witness:
  "now_board ([Node 0 None None White :: nat node] ! 0) < length [pass_row] \<and>
   stimulate row_game (AIPlayer White) 0 ([pass_row], [Node 0 None None White], zero_draws)
     = (Inr (- 14), [pass_row, [Some White, Some White, Some White, Some White]], zero_draws) \<and>
   get_winner row_game [Some White, Some White, Some White, Some White] = (1, 4)"
proof -
  have h: "now_board ([Node 0 None None White :: nat node] ! 0) < length [pass_row]"
    by (simp add: Node_def)
  have run: "stimulate row_game (AIPlayer White) 0 ([pass_row], [Node 0 None None White], zero_draws)
     = (Inr (- 14), [pass_row, [Some White, Some White, Some White, Some White]], zero_draws)"
    by (simp add: run_defs row_defs pass_row_def)
  have win: "get_winner row_game [Some White, Some White, Some White, Some White] = (1, 4)"
    by (simp add: row_defs)
  show ?thesis
    using h run win stimulate_reward [OF h, of row_game "AIPlayer White" zero_draws]
    by simp
qed

text \<open>
  C2, as the claim has it, fails: on a full row that black wins by one disc, the rollout
  of the engine that plays black returns -11, a negative reward for an outcome that
  favours the engine's own colour.
\<close>

theorem stimulate_reward_counterexample:
  "get_winner row_game full_row = (0, 1) \<and> pcolor (AIPlayer Black) = Black \<and>
   stimulate row_game (AIPlayer Black) 0 ([full_row], [Node 0 None None Black], zero_draws)
     = (Inr (- 11), [full_row, full_row], zero_draws)"
  by (simp add: run_defs row_defs full_row_def)


text \<open>
  C3. A rollout from the row \<^verbatim>\<open>. X O . . O X .\<close> with black to move, every draw being 0:
  the first pass of the loop plays square 3 for black, which gives \<^verbatim>\<open>. X X X . O X .\<close>;
  the game is not over; the second pass draws from the legal actions of white on the
  board of the node, takes square 0 and passes it to \<^verbatim>\<open>_move\<close> on the rollout board,
  where square 0 is not a legal action of white.
\<close>

theorem stimulate_illegal_move:
  "stimulate_body row_game 0 1 ([two_groups_row, two_groups_row], Black, zero_draws)
     = (Inr (3, Black), [two_groups_row, after_first], White, zero_draws) \<and>
   \<not> game_over row_game after_first \<and>
   stimulate_body row_game 0 1 ([two_groups_row, after_first], White, zero_draws)
     = (Inr (0, White), [two_groups_row, after_first], Black, zero_draws) \<and>
   0 \<notin> set (get_legal_actions row_game after_first White) \<and>
   stimulate_loop row_game 0 1 ([two_groups_row, two_groups_row], Black, 0, zero_draws)
     = stimulate_loop row_game 0 1 ([two_groups_row, after_first], Black, 2, zero_draws)"
proof -
  have 1: "stimulate_body row_game 0 1 ([two_groups_row, two_groups_row], Black, zero_draws)
     = (Inr (3, Black), [two_groups_row, after_first], White, zero_draws)"
    by (simp add: run_defs row_defs two_groups_row_def after_first_def)
  have 2: "\<not> game_over row_game after_first"
    by (simp add: row_defs after_first_def upt_conv_Cons)
  have 3: "stimulate_body row_game 0 1 ([two_groups_row, after_first], White, zero_draws)
     = (Inr (0, White), [two_groups_row, after_first], Black, zero_draws)"
    by (simp add: run_defs row_defs two_groups_row_def after_first_def)
  have 4: "0 \<notin> set (get_legal_actions row_game after_first White)"
    by (simp add: row_defs after_first_def upt_conv_Cons)
  have 0: "\<not> game_over row_game two_groups_row"
    by (simp add: row_defs two_groups_row_def upt_conv_Cons)
  have 5: "stimulate_loop row_game 0 1 ([two_groups_row, two_groups_row], Black, 0, zero_draws)
     = stimulate_loop row_game 0 1 ([two_groups_row, after_first], White, 1, zero_draws)"
    using stimulate_loop_step [OF _ _ 1, of 0] 0 by simp
  have 6: "stimulate_loop row_game 0 1 ([two_groups_row, after_first], White, 1, zero_draws)
     = stimulate_loop row_game 0 1 ([two_groups_row, after_first], Black, 2, zero_draws)"
    using stimulate_loop_step [OF _ _ 3, of 1] 2 by (simp add: numeral_2_eq_2)
  from 1 2 3 4 5 6 show ?thesis by simp
qed

section \<open>Backpropagation\<close>

declare chain.simps [simp del]

lemma parents_okD: "parents_ok ns \<Longrightarrow> i < length ns \<Longrightarrow> parent (ns ! i) = Some p \<Longrightarrow> p < i"
  by (fastforce simp: parents_ok_def list_all_iff split: option.splits)

lemma backup_None [simp]: "backup self None r ns = Some ns"
  by (subst backup.simps) simp

lemma backup_Some:
  "backup self (Some i) r ns = backup self (parent (ns ! i)) r (ns[i := backup_node self r (ns ! i)])" if "i < length ns"
  using that by (subst backup.simps) (simp add: backup_node_def Let_def)

lemma chain_None: "parent (ns ! i) = None \<Longrightarrow> chain ns i = [i]"
  by (subst chain.simps) simp

lemma chain_Some: "parent (ns ! i) = Some p \<Longrightarrow> p < i \<Longrightarrow> chain ns i = i # chain ns p"
  by (subst chain.simps) simp

lemma chain_Some_ge: "parent (ns ! i) = Some p \<Longrightarrow> \<not> p < i \<Longrightarrow> chain ns i = [i]"
  by (subst chain.simps) simp

lemma chain_le: "j \<in> set (chain ns i) \<Longrightarrow> j \<le> i"
proof (induction ns i rule: chain.induct)
  case (1 ns i)
  show ?case
  proof (cases "parent (ns ! i)")
    case None
    with "1.prems" show ?thesis by (simp add: chain_None)
  next
    case (Some p)
    show ?thesis
    proof (cases "p < i")
      case True
      with Some "1.prems" have "j = i \<or> j \<in> set (chain ns p)" by (simp add: chain_Some)
      with "1.IH" [OF Some True] True show ?thesis by auto
    next
      case False
      with Some "1.prems" show ?thesis by (simp add: chain_Some_ge)
    qed
  qed
qed

lemma chain_cong: "(\<And>j. parent (ns' ! j) = parent (ns ! j)) \<Longrightarrow> chain ns' i = chain ns i"
proof (induction ns i rule: chain.induct)
  case (1 ns i)
  show ?case
  proof (cases "parent (ns ! i)")
    case None
    with "1.prems" show ?thesis by (simp add: chain_None)
  next
    case (Some p)
    show ?thesis
    proof (cases "p < i")
      case True
      with Some "1.prems" "1.IH" [OF Some True] show ?thesis by (simp add: chain_Some)
    next
      case False
      with Some "1.prems" show ?thesis by (simp add: chain_Some_ge)
    qed
  qed
qed

lemma chain_distinct: "distinct (chain ns i)"
proof (induction ns i rule: chain.induct)
  case (1 ns i)
  show ?case
  proof (cases "parent (ns ! i)")
    case None
    then show ?thesis by (simp add: chain_None)
  next
    case (Some p)
    show ?thesis
    proof (cases "p < i")
      case True
      then have "i \<notin> set (chain ns p)" by (auto dest: chain_le)
      with Some True "1.IH" [OF Some True] show ?thesis by (simp add: chain_Some)
    next
      case False
      with Some show ?thesis by (simp add: chain_Some_ge)
    qed
  qed
qed

lemma chain_head: "hd (chain ns i) = i" "i \<in> set (chain ns i)" "chain ns i \<noteq> []"
  by (subst chain.simps, simp)+

lemma chain_last: "parents_ok ns \<Longrightarrow> i < length ns \<Longrightarrow> parent (ns ! last (chain ns i)) = None"
proof (induction ns i rule: chain.induct)
  case (1 ns i)
  show ?case
  proof (cases "parent (ns ! i)")
    case None
    then show ?thesis by (simp add: chain_None)
  next
    case (Some p)
    with 1 have lt: "p < i" by (auto dest: parents_okD)
    with "1.prems" have "p < length ns" by simp
    with "1.IH" [OF Some lt] "1.prems" have "parent (ns ! last (chain ns p)) = None" by simp
    then show ?thesis using Some lt by (simp add: chain_Some chain_head)
  qed
qed

lemma backup_spec:
  "parents_ok ns \<Longrightarrow> n < length ns \<Longrightarrow>
     backup self (Some n) r ns =
       Some (map (\<lambda>i. if i \<in> set (chain ns n) then backup_node self r (ns ! i) else ns ! i)
               [0..<length ns])"
proof (induction n arbitrary: ns rule: less_induct)
  case (less n)
  let ?ns2 = "ns[n := backup_node self r (ns ! n)]"
  have par: "\<And>j. parent (?ns2 ! j) = parent (ns ! j)"
    using less.prems by (simp add: nth_list_update backup_node_def)
  have ok2: "parents_ok ?ns2"
    using less.prems(1) by (simp add: parents_ok_def par)
  show ?case
  proof (cases "parent (ns ! n)")
    case None
    then have ch: "chain ns n = [n]" by (simp add: chain_None)
    have "backup self (Some n) r ns = Some ?ns2"
      using less.prems None by (simp add: backup_Some par)
    moreover have "?ns2 = map (\<lambda>i. if i \<in> set (chain ns n) then backup_node self r (ns ! i) else ns ! i)
               [0..<length ns]"
      using less.prems by (intro nth_equalityI) (simp_all add: ch nth_list_update)
    ultimately show ?thesis by simp
  next
    case (Some p)
    with less.prems have lt: "p < n" by (auto dest: parents_okD)
    then have pl: "p < length ?ns2" using less.prems by simp
    have ch: "chain ns n = n # chain ns p" using Some lt by (simp add: chain_Some)
    have nin: "n \<notin> set (chain ns p)" using lt by (auto dest: chain_le)
    have "backup self (Some n) r ns = backup self (Some p) r ?ns2"
      using less.prems Some by (simp add: backup_Some)
    also have "\<dots> = Some (map (\<lambda>i. if i \<in> set (chain ?ns2 p) then backup_node self r (?ns2 ! i) else ?ns2 ! i)
               [0..<length ?ns2])"
      by (rule less.IH [OF lt ok2 pl])
    also have "map (\<lambda>i. if i \<in> set (chain ?ns2 p) then backup_node self r (?ns2 ! i) else ?ns2 ! i)
               [0..<length ?ns2] =
       map (\<lambda>i. if i \<in> set (chain ns n) then backup_node self r (ns ! i) else ns ! i)
               [0..<length ns]"
      using nin less.prems
      by (intro nth_equalityI) (auto simp: ch chain_cong [OF par] nth_list_update)
    finally show ?thesis .
  qed
qed


lemma chain_links:
  "parents_ok ns \<Longrightarrow> i < length ns \<Longrightarrow> Suc k < length (chain ns i) \<Longrightarrow>
     parent (ns ! (chain ns i ! k)) = Some (chain ns i ! Suc k)"
proof (induction ns i arbitrary: k rule: chain.induct)
  case (1 ns i)
  show ?case
  proof (cases "parent (ns ! i)")
    case None
    with "1.prems" show ?thesis by (simp add: chain_None)
  next
    case (Some p)
    with 1 have lt: "p < i" by (auto dest: parents_okD)
    with "1.prems" have pl: "p < length ns" by simp
    have ch: "chain ns i = i # chain ns p" using Some lt by (simp add: chain_Some)
    show ?thesis
    proof (cases k)
      case 0
      have "chain ns p ! 0 = p" using chain_head(1,3) [of ns p] by (simp add: hd_conv_nth)
      with 0 Some show ?thesis by (simp add: ch)
    next
      case (Suc k')
      with "1.prems"(3) have "Suc k' < length (chain ns p)" by (simp add: ch)
      from "1.IH" [OF Some lt "1.prems"(1) pl this] Suc show ?thesis by (simp add: ch)
    qed
  qed
qed

text \<open>
  C8. In an arena where every parent is older than its children, \<^verbatim>\<open>backup\<close> from a
  node returns; the nodes it changes are those of the chain of \<^verbatim>\<open>parent\<close> references from
  the node to the root, inclusive, which holds no node twice; each of them gets one more
  visit, and the reward added if its colour is the engine's own and subtracted otherwise.
  Every other node is left as it was.
\<close>

theorem backup_chain:
  assumes "parents_ok ns" and "n < length ns"
  shows "\<exists>ns'. backup self (Some n) r ns = Some ns' \<and> length ns' = length ns \<and>
     hd (chain ns n) = n \<and> parent (ns ! last (chain ns n)) = None \<and>
     (\<forall>k. Suc k < length (chain ns n) \<longrightarrow>
        parent (ns ! (chain ns n ! k)) = Some (chain ns n ! Suc k)) \<and>
     distinct (chain ns n) \<and>
     (\<forall>i < length ns. ns' ! i =
        (if i \<in> set (chain ns n)
         then (ns ! i)\<lparr>visits := visits (ns ! i) + 1,
                reward := (if color (ns ! i) = pcolor self then reward (ns ! i) + real_of_int r
                           else reward (ns ! i) - real_of_int r)\<rparr>
         else ns ! i))"
proof -
  let ?ns' = "map (\<lambda>i. if i \<in> set (chain ns n) then backup_node self r (ns ! i) else ns ! i)
               [0..<length ns]"
  have "backup self (Some n) r ns = Some ?ns'" by (rule backup_spec [OF assms])
  moreover have "length ?ns' = length ns" by simp
  moreover have "\<forall>i < length ns. ?ns' ! i =
        (if i \<in> set (chain ns n)
         then (ns ! i)\<lparr>visits := visits (ns ! i) + 1,
                reward := (if color (ns ! i) = pcolor self then reward (ns ! i) + real_of_int r
                           else reward (ns ! i) - real_of_int r)\<rparr>
         else ns ! i)"
    by (simp add: backup_node_def)
  ultimately show ?thesis
    using chain_head(1) [of ns n] chain_last [OF assms] chain_links [OF assms] chain_distinct [of ns n]
    by blast
qed

lemma tree3_ok: "parents_ok tree3" "1 < length tree3"
  by (simp_all add: parents_ok_def tree3_def Node_def upt_conv_Cons)

lemma tree3_backup:
   "backup (AIPlayer Black) (Some 1) 5 tree3 =
      Some [(Node 0 None None Black)\<lparr>children := [1, 2], visits := 1, reward := 5\<rparr>,
            (Node 1 (Some 0) (Some 3) White)\<lparr>visits := 1, reward := - 5\<rparr>,
            Node 2 (Some 0) (Some 4) White]"
  by (simp add: backup_Some backup_node_def tree3_def Node_def AIPlayer_def)

theorem backup_chain_witness:
  "parents_ok tree3 \<and> 1 < length tree3 \<and> chain tree3 1 = [1, 0] \<and>
   backup (AIPlayer Black) (Some 1) 5 tree3 =
      Some [(Node 0 None None Black)\<lparr>children := [1, 2], visits := 1, reward := 5\<rparr>,
            (Node 1 (Some 0) (Some 3) White)\<lparr>visits := 1, reward := - 5\<rparr>,
            Node 2 (Some 0) (Some 4) White]"
proof -
  have ch: "chain tree3 1 = [1, 0]"
    by (simp add: chain_Some [where p = 0] chain_None tree3_def Node_def)
  show ?thesis
    using tree3_ok tree3_backup ch backup_chain [OF tree3_ok, of "AIPlayer Black" 5]
    by simp
qed

section \<open>Expansion\<close>

lemma extend_step_eq:
  assumes "n < length ns"
  shows "extend_step g n nc act (bs, ns) =
     (bs @ [move g act (color (ns ! n)) (bs ! now_board (ns ! n))],
      ns[n := (ns ! n)\<lparr>children := children (ns ! n) @ [length ns]\<rparr>]
        @ [Node (length bs) (Some n) (Some act) nc])"
  using assms
  by (simp add: extend_step_def deepcopy_def board_move_def add_child_def Let_def nth_append
      list_update_append)

lemma fold_extend_step:
  assumes "n < length ns" and "now_board (ns ! n) < length bs"
  shows "fold (extend_step g n nc) acts (bs, ns) =
     (bs @ map (\<lambda>act. move g act (color (ns ! n)) (bs ! now_board (ns ! n))) acts,
      ns[n := (ns ! n)\<lparr>children := children (ns ! n) @ [length ns..<length ns + length acts]\<rparr>]
        @ map (\<lambda>k. Node (length bs + k) (Some n) (Some (acts ! k)) nc) [0..<length acts])"
proof (induction acts rule: rev_induct)
  case Nil
  then show ?case by simp
next
  case (snoc x acts)
  let ?B = "bs @ map (\<lambda>act. move g act (color (ns ! n)) (bs ! now_board (ns ! n))) acts"
  let ?N = "ns[n := (ns ! n)\<lparr>children := children (ns ! n) @ [length ns..<length ns + length acts]\<rparr>]
        @ map (\<lambda>k. Node (length bs + k) (Some n) (Some (acts ! k)) nc) [0..<length acts]"
  have nN: "n < length ?N" using assms by simp
  have Nn: "?N ! n = (ns ! n)\<lparr>children := children (ns ! n) @ [length ns..<length ns + length acts]\<rparr>"
    using assms by (simp add: nth_append)
  have Ba: "?B ! now_board (ns ! n) = bs ! now_board (ns ! n)"
    using assms by (simp add: nth_append)
  have "fold (extend_step g n nc) (acts @ [x]) (bs, ns) = extend_step g n nc x (?B, ?N)"
    by (simp add: snoc.IH)
  also have "\<dots> = (?B @ [move g x (color (ns ! n)) (bs ! now_board (ns ! n))],
      ?N[n := (?N ! n)\<lparr>children := children (?N ! n) @ [length ?N]\<rparr>]
        @ [Node (length ?B) (Some n) (Some x) nc])"
    using Ba by (simp only: extend_step_eq [OF nN] Nn) simp
  also have "?N[n := (?N ! n)\<lparr>children := children (?N ! n) @ [length ?N]\<rparr>]
        @ [Node (length ?B) (Some n) (Some x) nc] =
      ns[n := (ns ! n)\<lparr>children := children (ns ! n) @ [length ns..<length ns + length (acts @ [x])]\<rparr>]
        @ map (\<lambda>k. Node (length bs + k) (Some n) (Some ((acts @ [x]) ! k)) nc) [0..<length (acts @ [x])]"
    using assms by (simp add: list_update_append nth_append upt_Suc_append del: upt_Suc)
  finally show ?case by simp
qed


lemma extend_unvisited: "visits (ns ! n) = 0 \<Longrightarrow> extend g n (bs, ns) = (n, bs, ns)"
  by (simp add: extend_def)

lemma new_color_opponent: "(if c = Black then White else Black) = opponent c"
  by (simp add: opponent_def)

lemma extend_visited:
  assumes "n < length ns" and "now_board (ns ! n) < length bs" and "visits (ns ! n) \<noteq> 0"
  shows "extend g n (bs, ns) =
     (let acts = get_legal_actions g (bs ! now_board (ns ! n)) (color (ns ! n));
          kids = children (ns ! n) @ [length ns..<length ns + length acts]
      in (if kids = [] then n else kids ! 0,
          bs @ map (\<lambda>act. move g act (color (ns ! n)) (bs ! now_board (ns ! n))) acts,
          ns[n := (ns ! n)\<lparr>children := kids\<rparr>]
            @ map (\<lambda>k. Node (length bs + k) (Some n) (Some (acts ! k)) (opponent (color (ns ! n))))
                [0..<length acts]))"
proof -
  define acts where "acts = get_legal_actions g (bs ! now_board (ns ! n)) (color (ns ! n))"
  define kids where "kids = children (ns ! n) @ [length ns..<length ns + length acts]"
  define B where "B = bs @ map (\<lambda>act. move g act (color (ns ! n)) (bs ! now_board (ns ! n))) acts"
  define N where "N = ns[n := (ns ! n)\<lparr>children := kids\<rparr>]
            @ map (\<lambda>k. Node (length bs + k) (Some n) (Some (acts ! k)) (opponent (color (ns ! n))))
                [0..<length acts]"
  have f: "fold (extend_step g n (opponent (color (ns ! n)))) acts (bs, ns) = (B, N)"
    unfolding B_def N_def kids_def by (rule fold_extend_step [OF assms(1,2)])
  have c: "children (N ! n) = kids"
    using assms(1) by (simp add: N_def nth_append)
  have "extend g n (bs, ns) = (if kids = [] then n else kids ! 0, B, N)"
    using assms(3) by (simp add: extend_def Let_def new_color_opponent acts_def [symmetric] f c)
  then show ?thesis
    by (simp only: Let_def acts_def kids_def B_def N_def)
qed

lemma acts_two_groups: "get_legal_actions row_game two_groups_row Black = [3, 4]"
  by (simp add: row_defs two_groups_row_def upt_conv_Cons)

lemma extend_two_groups:
  "extend row_game 0 ([two_groups_row], visited_root) =
     (1,
      [two_groups_row, after_first,
       [None, Some Black, Some White, None, Some Black, Some Black, Some Black, None]],
      [(Node 0 None None Black)\<lparr>visits := 1, reward := 3, children := [1, 2]\<rparr>,
       Node 1 (Some 0) (Some 3) White, Node 2 (Some 0) (Some 4) White])"
  apply (subst extend_visited)
  apply (simp_all add: visited_root_def Node_def acts_two_groups Let_def upt_conv_Cons opponent_def)
  apply (simp add: row_defs two_groups_row_def after_first_def upt_conv_Cons)
  done

section \<open>Invariants of the tree\<close>

lemma parents_okI: "(\<And>i p. i < length ns \<Longrightarrow> parent (ns ! i) = Some p \<Longrightarrow> p < i) \<Longrightarrow> parents_ok ns"
  by (auto simp: parents_ok_def list_all_iff split: option.splits)

lemma stimulate_store:
  assumes "stimulate g self n (bs, ns, rnd) = (res, bs', rnd')"
  shows "length bs' = Suc (length bs) \<and> (\<forall>i < length bs. bs' ! i = bs ! i)"
proof -
  obtain r bs2 col count rnd2 where
    run: "stimulate_loop g (now_board (ns ! n)) (length bs)
        (bs @ [bs ! now_board (ns ! n)], color (ns ! n), 0, rnd) = (r, bs2, col, count, rnd2)"
    by (metis prod_cases5)
  from stimulate_loop_frame [OF run]
  have "length bs2 = Suc (length bs)" "\<forall>i < length bs. bs2 ! i = bs ! i"
    by (auto simp: nth_append)
  moreover from assms run have "bs' = bs2"
    by (auto simp: stimulate_def deepcopy_def Let_def split: sum.splits prod.splits)
  ultimately show ?thesis by simp
qed

lemma tree_inv_fresh:
  "board < length bs \<Longrightarrow> deepcopy board bs = (root_board, bs1) \<Longrightarrow>
   tree_inv bs1 [Node root_board None None c]"
  by (auto simp: tree_inv_def deepcopy_def Node_def intro!: parents_okI)

lemma tree_inv_extend:
  assumes inv: "tree_inv bs ns" and n: "n < length ns"
    and e: "extend g n (bs, ns) = (leaf, bs', ns')"
  shows "tree_inv bs' ns'"
proof (cases "visits (ns ! n) = 0")
  case True
  with e inv show ?thesis by (simp add: extend_unvisited)
next
  case False
  define acts where "acts = get_legal_actions g (bs ! now_board (ns ! n)) (color (ns ! n))"
  define kids where "kids = children (ns ! n) @ [length ns..<length ns + length acts]"
  from inv n have b: "now_board (ns ! n) < length bs" by (simp add: tree_inv_def)
  from extend_visited [OF n b False, of g] e
  have bs': "bs' = bs @ map (\<lambda>act. move g act (color (ns ! n)) (bs ! now_board (ns ! n))) acts"
    and ns': "ns' = ns[n := (ns ! n)\<lparr>children := kids\<rparr>]
            @ map (\<lambda>k. Node (length bs + k) (Some n) (Some (acts ! k)) (opponent (color (ns ! n))))
                [0..<length acts]"
    by (simp_all add: Let_def acts_def kids_def)
  have old: "ns' ! i = (ns ! i)\<lparr>children := children (ns' ! i)\<rparr>" if "i < length ns" for i
    using that by (cases "i = n") (simp_all add: ns' nth_append)
  have new: "ns' ! i = Node (length bs + (i - length ns)) (Some n) (Some (acts ! (i - length ns)))
                (opponent (color (ns ! n)))"
    if "length ns \<le> i" "i < length ns'" for i
    using that by (simp add: ns' nth_append)
  have len: "length ns' = length ns + length acts" "length bs' = length bs + length acts"
    by (simp_all add: ns' bs')
  have par: "parent (ns' ! i) = parent (ns ! i)" "color (ns' ! i) = color (ns ! i)"
     "visits (ns' ! i) = visits (ns ! i)" "reward (ns' ! i) = reward (ns ! i)"
     "now_board (ns' ! i) = now_board (ns ! i)" if "i < length ns" for i
    by (subst old [OF that], simp)+
  have po: "parents_ok ns'"
  proof (rule parents_okI)
    fix i p assume i: "i < length ns'" and p: "parent (ns' ! i) = Some p"
    show "p < i"
    proof (cases "i < length ns")
      case True
      with p inv show ?thesis by (auto simp: par tree_inv_def dest: parents_okD)
    next
      case False
      with new [of i] i p n show ?thesis by (simp add: Node_def)
    qed
  qed
  have "now_board (ns' ! i) < length bs' \<and>
         (\<forall>p. parent (ns' ! i) = Some p \<longrightarrow> color (ns' ! i) = opponent (color (ns' ! p))) \<and>
         (visits (ns' ! i) = 0 \<longrightarrow> reward (ns' ! i) = 0)" if i: "i < length ns'" for i
  proof (cases "i < length ns")
    case True
    have "color (ns' ! i) = opponent (color (ns' ! p))" if p: "parent (ns' ! i) = Some p" for p
    proof -
      from p True have p': "parent (ns ! i) = Some p" by (simp add: par)
      with inv True have "p < i" by (auto simp: tree_inv_def dest: parents_okD)
      with True have "p < length ns" by simp
      with inv True p' show ?thesis by (simp add: par tree_inv_def)
    qed
    with True inv show ?thesis by (auto simp: par len tree_inv_def)
  next
    case False
    with new [of i] i n len show ?thesis by (auto simp: Node_def par)
  qed
  with po show ?thesis by (simp add: tree_inv_def)
qed

lemma tree_inv_stimulate:
  assumes "tree_inv bs ns" and "stimulate g self n (bs, ns, rnd) = (res, bs', rnd')"
  shows "tree_inv bs' ns"
  using assms(1) stimulate_store [OF assms(2)] by (auto simp: tree_inv_def)

lemma tree_inv_backup:
  assumes inv: "tree_inv bs ns" and n: "n < length ns"
    and b: "backup self (Some n) r ns = Some ns'"
  shows "tree_inv bs ns'"
proof -
  from inv have po: "parents_ok ns" by (simp add: tree_inv_def)
  from backup_spec [OF po n, of self r] b
  have ns': "ns' = map (\<lambda>i. if i \<in> set (chain ns n) then backup_node self r (ns ! i) else ns ! i)
               [0..<length ns]"
    by simp
  have f: "parent (ns' ! i) = parent (ns ! i)" "color (ns' ! i) = color (ns ! i)"
     "now_board (ns' ! i) = now_board (ns ! i)"
     "visits (ns' ! i) = 0 \<longrightarrow> visits (ns ! i) = 0 \<and> reward (ns' ! i) = reward (ns ! i)"
    if "i < length ns" for i
    using that by (simp_all add: ns' backup_node_def)
  have l: "length ns' = length ns" by (simp add: ns')
  have po': "parents_ok ns'"
    by (rule parents_okI) (auto simp: l f dest: parents_okD [OF po])
  have "now_board (ns' ! i) < length bs \<and>
         (\<forall>p. parent (ns' ! i) = Some p \<longrightarrow> color (ns' ! i) = opponent (color (ns' ! p))) \<and>
         (visits (ns' ! i) = 0 \<longrightarrow> reward (ns' ! i) = 0)" if i: "i < length ns'" for i
  proof -
    from i l have i': "i < length ns" by simp
    have "color (ns' ! i) = opponent (color (ns' ! p))" if p: "parent (ns' ! i) = Some p" for p
    proof -
      from p i' have p': "parent (ns ! i) = Some p" by (simp add: f)
      with po i' have "p < i" by (auto dest: parents_okD)
      with i' have "p < length ns" by simp
      with inv i' p' show ?thesis by (simp add: f tree_inv_def)
    qed
    with inv i' f(4) [OF i'] show ?thesis by (auto simp: f tree_inv_def)
  qed
  with po' show ?thesis by (simp add: tree_inv_def)
qed

lemma reachable_tree_inv: "reachable g self s \<Longrightarrow> tree_inv (fst s) (fst (snd s))"
proof (induction rule: reachable.induct)
  case (fresh_root board bs root_board bs1 rnd)
  then show ?case by (simp add: tree_inv_fresh)
next
  case (by_select bs ns rnd n c res)
  then show ?case by simp
next
  case (by_extend bs ns rnd n leaf bs' ns')
  then show ?case by (simp add: tree_inv_extend)
next
  case (by_stimulate bs ns rnd n res bs' rnd')
  then show ?case by (simp add: tree_inv_stimulate)
next
  case (by_backup bs ns rnd n r ns')
  then show ?case by (simp add: tree_inv_backup)
qed

text \<open>
  C9. In every state reached from a fresh root by \<^verbatim>\<open>select\<close>, \<^verbatim>\<open>extend\<close>, \<^verbatim>\<open>stimulate\<close>
  and \<^verbatim>\<open>backup\<close>, in any order and on any nodes, a node that has a parent has the colour
  of the opponent of its parent, and a node without visits has reward 0.
\<close>

theorem reachable_invariant:
  assumes "reachable g self (bs, ns, rnd)" and "i < length ns"
  shows "(\<forall>p. parent (ns ! i) = Some p \<longrightarrow>
            p < length ns \<and> color (ns ! i) = opponent (color (ns ! p))) \<and>
         (visits (ns ! i) = 0 \<longrightarrow> reward (ns ! i) = 0)"
proof -
  from reachable_tree_inv [OF assms(1)] have inv: "tree_inv bs ns" by simp
  then have "parents_ok ns" by (simp add: tree_inv_def)
  from parents_okD [OF this assms(2)] assms(2)
  have "\<forall>p. parent (ns ! i) = Some p \<longrightarrow> p < length ns" by fastforce
  with inv assms(2) show ?thesis by (simp add: tree_inv_def)
qed


lemma reachable_example:
  "reachable row_game (AIPlayer Black)
     ([two_groups_row, two_groups_row, after_first,
       [None, Some Black, Some White, None, Some Black, Some Black, Some Black, None]],
      [(Node 1 None None Black)\<lparr>visits := 1, reward := 3, children := [1, 2]\<rparr>,
       Node 2 (Some 0) (Some 3) White, Node 3 (Some 0) (Some 4) White],
      zero_draws)"
proof -
  let ?self = "AIPlayer Black"
  have 0: "reachable row_game ?self
     ([two_groups_row, two_groups_row], [Node 1 None None (pcolor ?self)], zero_draws)"
    by (rule fresh_root [where board = 0 and bs = "[two_groups_row]"]) (simp_all add: deepcopy_def)
  have b: "backup ?self (Some 0) 3 [Node 1 None None (pcolor ?self) :: nat node] =
     Some [(Node 1 None None Black)\<lparr>visits := 1, reward := 3\<rparr>]"
    by (simp add: backup_Some backup_node_def Node_def AIPlayer_def)
  have 1: "reachable row_game ?self
     ([two_groups_row, two_groups_row], [(Node 1 None None Black)\<lparr>visits := 1, reward := 3\<rparr>],
      zero_draws)"
    by (rule by_backup [OF 0 _ b]) simp
  have e: "extend row_game 0
      ([two_groups_row, two_groups_row], [(Node 1 None None Black)\<lparr>visits := 1, reward := 3\<rparr>]) =
     (1,
      [two_groups_row, two_groups_row, after_first,
       [None, Some Black, Some White, None, Some Black, Some Black, Some Black, None]],
      [(Node 1 None None Black)\<lparr>visits := 1, reward := 3, children := [1, 2]\<rparr>,
       Node 2 (Some 0) (Some 3) White, Node 3 (Some 0) (Some 4) White])"
    apply (subst extend_visited)
       apply (simp_all add: Node_def acts_two_groups Let_def upt_conv_Cons opponent_def)
    apply (simp add: row_defs two_groups_row_def after_first_def upt_conv_Cons)
    done
  show ?thesis
    by (rule by_extend [OF 1 _ e]) simp
qed

theorem reachable_invariant_witness:
  "reachable row_game (AIPlayer Black)
     ([two_groups_row, two_groups_row, after_first,
       [None, Some Black, Some White, None, Some Black, Some Black, Some Black, None]],
      [(Node 1 None None Black)\<lparr>visits := 1, reward := 3, children := [1, 2]\<rparr>,
       Node 2 (Some 0) (Some 3) White, Node 3 (Some 0) (Some 4) White],
      zero_draws) \<and>
   (1::nat) < length [(Node 1 None None Black)\<lparr>visits := 1, reward := 3, children := [1, 2]\<rparr>,
       Node 2 (Some 0) (Some 3) White, Node 3 (Some 0) (Some 4) White :: nat node] \<and>
   parent (Node 2 (Some 0) (Some 3) White :: nat node) = Some 0 \<and>
   color (Node 2 (Some 0) (Some 3) White :: nat node) = opponent Black \<and>
   visits (Node 2 (Some 0) (Some 3) White :: nat node) = 0 \<and>
   reward (Node 2 (Some 0) (Some 3) White :: nat node) = 0"
proof -
  have l: "(1::nat) < length [(Node 1 None None Black)\<lparr>visits := 1, reward := 3, children := [1, 2]\<rparr>,
       Node 2 (Some 0) (Some 3) White, Node 3 (Some 0) (Some 4) White :: nat node]"
    by simp
  show ?thesis
    using reachable_example l reachable_invariant [OF reachable_example l]
    by (simp add: Node_def opponent_def)
qed

section \<open>Scores and selection\<close>

lemma get_ucb_unvisited: "visits (ns ! n) = 0 \<Longrightarrow> get_ucb ns n c = Inr (real_of_int maxsize)"
  by (simp add: get_ucb_def)

lemma get_ucb_visited:
  assumes "visits (ns ! n) \<noteq> 0" and "parent (ns ! n) = Some p" and "visits (ns ! p) \<noteq> 0"
  shows "get_ucb ns n c =
     Inr (reward (ns ! n) / real (visits (ns ! n))
          + c * sqrt (2 * ln (real (visits (ns ! p))) / real (visits (ns ! n))))"
proof -
  from assms(3) have "1 \<le> real (visits (ns ! p))" by simp
  then have "0 \<le> ln (real (visits (ns ! p)))" by simp
  then have "\<not> 2 * ln (real (visits (ns ! p))) / real (visits (ns ! n)) < 0"
    by (simp add: not_less)
  with assms show ?thesis by (simp add: get_ucb_def Let_def)
qed

lemma explore_bound:
  assumes "v \<noteq> 0" and "V \<noteq> 0"
  shows "sqrt (2 * ln (real V) / real v) \<le> 2 * real V"
proof -
  have V1: "1 \<le> real V" and v1: "1 \<le> real v" using assms by simp_all
  have l0: "0 \<le> ln (real V)" using V1 by simp
  have "ln (real V) \<le> real V - 1" using V1 by (intro ln_le_minus_one) simp
  then have lV: "ln (real V) \<le> real V" by simp
  have "ln (real V) * 1 \<le> ln (real V) * real v"
    using v1 l0 by (intro mult_left_mono) simp_all
  then have "2 * ln (real V) / real v \<le> 2 * ln (real V)"
    using v1 by (simp add: divide_le_eq)
  also have "\<dots> \<le> 2 * real V" using lV by simp
  finally have "sqrt (2 * ln (real V) / real v) \<le> sqrt (2 * real V)" by simp
  also have "\<dots> \<le> 2 * real V"
  proof -
    have "1 \<le> 2 * real V" using V1 by simp
    then have "1 \<le> sqrt (2 * real V)" by simp
    then have "sqrt (2 * real V) * 1 \<le> sqrt (2 * real V) * sqrt (2 * real V)"
      by (intro mult_left_mono) simp_all
    then show ?thesis by simp
  qed
  finally show ?thesis .
qed

lemma get_ucb_bound:
  assumes "visits (ns ! n) \<noteq> 0" and "parent (ns ! n) = Some p" and "visits (ns ! p) \<noteq> 0"
    and "0 \<le> c"
  shows "\<exists>u. get_ucb ns n c = Inr u \<and>
     u \<le> reward (ns ! n) / real (visits (ns ! n)) + c * (2 * real (visits (ns ! p)))"
proof -
  from explore_bound [OF assms(1,3)] assms(4)
  have "c * sqrt (2 * ln (real (visits (ns ! p))) / real (visits (ns ! n)))
      \<le> c * (2 * real (visits (ns ! p)))"
    by (rule mult_left_mono)
  then show ?thesis by (simp add: get_ucb_visited [OF assms(1-3)])
qed

lemma max_child_keeps:
  assumes "\<forall>k \<in> set ks. \<exists>u. get_ucb ns k c = Inr u \<and> u \<le> mu"
  shows "max_child ns c ks (m, mu) = Inr (m, mu)"
  using assms by (induction ks) auto

lemma max_child_unvisited:
  assumes "\<forall>k \<in> set ks. \<exists>u. get_ucb ns k c = Inr u \<and> (visits (ns ! k) \<noteq> 0 \<longrightarrow> u < real_of_int maxsize)"
    and "\<exists>k \<in> set ks. visits (ns ! k) = 0" and "mu < real_of_int maxsize"
  shows "max_child ns c ks (m, mu) = Inr (first_unvisited ns ks, real_of_int maxsize)"
  using assms
proof (induction ks arbitrary: m mu)
  case Nil
  then show ?case by simp
next
  case (Cons a ks)
  show ?case
  proof (cases "visits (ns ! a) = 0")
    case True
    have "\<forall>k \<in> set ks. \<exists>u. get_ucb ns k c = Inr u \<and> u \<le> real_of_int maxsize"
    proof
      fix k assume k: "k \<in> set ks"
      with Cons.prems(1) obtain u where
        u: "get_ucb ns k c = Inr u" "visits (ns ! k) \<noteq> 0 \<longrightarrow> u < real_of_int maxsize"
        by auto
      show "\<exists>u. get_ucb ns k c = Inr u \<and> u \<le> real_of_int maxsize"
      proof (cases "visits (ns ! k) = 0")
        case True
        then show ?thesis by (simp add: get_ucb_unvisited)
      next
        case False
        with u show ?thesis by auto
      qed
    qed
    from max_child_keeps [OF this, of "Some a"] True Cons.prems(3)
    show ?thesis by (simp add: get_ucb_unvisited)
  next
    case False
    with Cons.prems(1) obtain u where
      u: "get_ucb ns a c = Inr u" "u < real_of_int maxsize" by auto
    from Cons.prems have rest:
      "\<forall>k \<in> set ks. \<exists>u. get_ucb ns k c = Inr u \<and> (visits (ns ! k) \<noteq> 0 \<longrightarrow> u < real_of_int maxsize)"
      "\<exists>k \<in> set ks. visits (ns ! k) = 0"
      using False by auto
    show ?thesis
    proof (cases "mu < u")
      case True
      with Cons.IH [OF rest u(2), of "Some a"] u False show ?thesis by simp
    next
      case False
      with Cons.IH [OF rest Cons.prems(3), of m] u \<open>visits (ns ! a) \<noteq> 0\<close> show ?thesis by simp
    qed
  qed
qed

lemma maxsize_pos: "- real_of_int maxsize < real_of_int maxsize"
  by (simp add: maxsize_def)

text \<open>
  C5. The score of a node without visits is \<^verbatim>\<open>sys.maxsize\<close>. The score of a visited node
  whose parent has been visited is reward / visits + C * sqrt (2 * ln (visits of the
  parent) / visits), and the engine's C is 1.5. When a list of children holds a node
  without visits, the search for the best score, as \<^verbatim>\<open>uct\<close> runs it, ends on the first
  such node with the score \<^verbatim>\<open>sys.maxsize\<close>, whatever the visited children are, as long as
  their mean reward plus three times the visits of their parent stays below
  \<^verbatim>\<open>sys.maxsize\<close>.
\<close>

theorem get_ucb_spec:
  "(visits (ns ! n) = 0 \<longrightarrow> get_ucb ns n c = Inr (real_of_int maxsize)) \<and>
   (visits (ns ! n) \<noteq> 0 \<and> parent (ns ! n) = Some p \<and> visits (ns ! p) \<noteq> 0 \<longrightarrow>
      get_ucb ns n c =
        Inr (reward (ns ! n) / real (visits (ns ! n))
             + c * sqrt (2 * ln (real (visits (ns ! p))) / real (visits (ns ! n))))) \<and>
   ucb_param (AIPlayer col) = 1.5 \<and>
   ((\<exists>k \<in> set ks. visits (ns ! k) = 0) \<and>
    (\<forall>k \<in> set ks. visits (ns ! k) \<noteq> 0 \<longrightarrow>
       (\<exists>q. parent (ns ! k) = Some q \<and> visits (ns ! q) \<noteq> 0 \<and>
            reward (ns ! k) / real (visits (ns ! k)) + 3 * real (visits (ns ! q))
              < real_of_int maxsize)) \<longrightarrow>
      max_child ns (ucb_param (AIPlayer col)) ks (None, - real_of_int maxsize)
        = Inr (first_unvisited ns ks, real_of_int maxsize) \<and>
      (\<exists>k \<in> set ks. first_unvisited ns ks = Some k \<and> visits (ns ! k) = 0))"
proof (intro conjI impI)
  assume "visits (ns ! n) = 0"
  then show "get_ucb ns n c = Inr (real_of_int maxsize)" by (rule get_ucb_unvisited)
next
  assume "visits (ns ! n) \<noteq> 0 \<and> parent (ns ! n) = Some p \<and> visits (ns ! p) \<noteq> 0"
  then show "get_ucb ns n c =
        Inr (reward (ns ! n) / real (visits (ns ! n))
             + c * sqrt (2 * ln (real (visits (ns ! p))) / real (visits (ns ! n))))"
    by (simp add: get_ucb_visited)
next
  show "ucb_param (AIPlayer col) = 1.5" by (simp add: AIPlayer_def)
next
  assume a: "(\<exists>k \<in> set ks. visits (ns ! k) = 0) \<and>
    (\<forall>k \<in> set ks. visits (ns ! k) \<noteq> 0 \<longrightarrow>
       (\<exists>q. parent (ns ! k) = Some q \<and> visits (ns ! q) \<noteq> 0 \<and>
            reward (ns ! k) / real (visits (ns ! k)) + 3 * real (visits (ns ! q))
              < real_of_int maxsize))"
  have c: "ucb_param (AIPlayer col) = 3 / 2" by (simp add: AIPlayer_def)
  have "\<forall>k \<in> set ks. \<exists>u. get_ucb ns k (3 / 2) = Inr u \<and>
      (visits (ns ! k) \<noteq> 0 \<longrightarrow> u < real_of_int maxsize)"
  proof
    fix k assume k: "k \<in> set ks"
    show "\<exists>u. get_ucb ns k (3 / 2) = Inr u \<and> (visits (ns ! k) \<noteq> 0 \<longrightarrow> u < real_of_int maxsize)"
    proof (cases "visits (ns ! k) = 0")
      case True
      then show ?thesis by (simp add: get_ucb_unvisited)
    next
      case False
      with a k obtain q where q: "parent (ns ! k) = Some q" "visits (ns ! q) \<noteq> 0"
        "reward (ns ! k) / real (visits (ns ! k)) + 3 * real (visits (ns ! q)) < real_of_int maxsize"
        by blast
      from get_ucb_bound [OF False q(1,2), of "3 / 2"] obtain u where
        "get_ucb ns k (3 / 2) = Inr u"
        "u \<le> reward (ns ! k) / real (visits (ns ! k)) + 3 / 2 * (2 * real (visits (ns ! q)))"
        by auto
      with q(3) show ?thesis by auto
    qed
  qed
  from max_child_unvisited [OF this _ maxsize_pos, of None] a
  show "max_child ns (ucb_param (AIPlayer col)) ks (None, - real_of_int maxsize)
        = Inr (first_unvisited ns ks, real_of_int maxsize)"
    by (simp add: c)
next
  assume a: "(\<exists>k \<in> set ks. visits (ns ! k) = 0) \<and>
    (\<forall>k \<in> set ks. visits (ns ! k) \<noteq> 0 \<longrightarrow>
       (\<exists>q. parent (ns ! k) = Some q \<and> visits (ns ! q) \<noteq> 0 \<and>
            reward (ns ! k) / real (visits (ns ! k)) + 3 * real (visits (ns ! q))
              < real_of_int maxsize))"
  then have "\<exists>k \<in> set ks. visits (ns ! k) = 0" by simp
  then show "\<exists>k \<in> set ks. first_unvisited ns ks = Some k \<and> visits (ns ! k) = 0"
    by (induction ks) auto
qed

theorem get_ucb_spec_witness:
  "visits (round2_tree ! 2) = 0 \<and> get_ucb round2_tree 2 (3 / 2) = Inr (real_of_int maxsize) \<and>
   visits (round2_tree ! 1) \<noteq> 0 \<and> parent (round2_tree ! 1) = Some 0 \<and>
   visits (round2_tree ! 0) \<noteq> 0 \<and>
   get_ucb round2_tree 1 (3 / 2) = Inr (11 + 3 / 2 * sqrt (2 * ln 2)) \<and>
   max_child round2_tree (ucb_param (AIPlayer Black)) [1, 2] (None, - real_of_int maxsize)
     = Inr (Some 2, real_of_int maxsize)"
  using get_ucb_spec [of round2_tree 2 "3 / 2" 0 Black "[1, 2]"]
    get_ucb_spec [of round2_tree 1 "3 / 2" 0 Black "[1, 2]"]
  by (simp add: round2_tree_def Node_def maxsize_def)


lemma max_child_spec:
  assumes "\<forall>k \<in> set ks. get_ucb ns k c = Inr (u k)"
  shows "\<exists>m' mu'. max_child ns c ks (m, mu) = Inr (m', mu') \<and>
     ((\<forall>k \<in> set ks. u k \<le> mu) \<and> m' = m \<and> mu' = mu \<or>
      (\<exists>pre k post. ks = pre @ k # post \<and> m' = Some k \<and> mu' = u k \<and> mu < u k \<and>
         (\<forall>j \<in> set pre. u j < u k) \<and> (\<forall>j \<in> set post. u j \<le> u k)))"
  using assms
proof (induction ks arbitrary: m mu)
  case Nil
  then show ?case by simp
next
  case (Cons a ks)
  then have a: "get_ucb ns a c = Inr (u a)" and rest: "\<forall>k \<in> set ks. get_ucb ns k c = Inr (u k)"
    by simp_all
  show ?case
  proof (cases "mu < u a")
    case True
    from Cons.IH [OF rest, of "Some a" "u a"] obtain m' mu' where
      r: "max_child ns c ks (Some a, u a) = Inr (m', mu')" and
      d: "(\<forall>k \<in> set ks. u k \<le> u a) \<and> m' = Some a \<and> mu' = u a \<or>
      (\<exists>pre k post. ks = pre @ k # post \<and> m' = Some k \<and> mu' = u k \<and> u a < u k \<and>
         (\<forall>j \<in> set pre. u j < u k) \<and> (\<forall>j \<in> set post. u j \<le> u k))"
      by blast
    have e: "max_child ns c (a # ks) (m, mu) = Inr (m', mu')"
      using a True r by simp
    from d show ?thesis
    proof
      assume "(\<forall>k \<in> set ks. u k \<le> u a) \<and> m' = Some a \<and> mu' = u a"
      then have "a # ks = [] @ a # ks \<and> m' = Some a \<and> mu' = u a \<and> mu < u a \<and>
         (\<forall>j \<in> set []. u j < u a) \<and> (\<forall>j \<in> set ks. u j \<le> u a)"
        using True by simp
      with e show ?thesis by blast
    next
      assume "\<exists>pre k post. ks = pre @ k # post \<and> m' = Some k \<and> mu' = u k \<and> u a < u k \<and>
         (\<forall>j \<in> set pre. u j < u k) \<and> (\<forall>j \<in> set post. u j \<le> u k)"
      then obtain pre k post where
        "ks = pre @ k # post" "m' = Some k" "mu' = u k" "u a < u k"
         "\<forall>j \<in> set pre. u j < u k" "\<forall>j \<in> set post. u j \<le> u k"
        by blast
      then have "a # ks = (a # pre) @ k # post \<and> m' = Some k \<and> mu' = u k \<and> mu < u k \<and>
         (\<forall>j \<in> set (a # pre). u j < u k) \<and> (\<forall>j \<in> set post. u j \<le> u k)"
        using True by simp
      with e show ?thesis by blast
    qed
  next
    case False
    from Cons.IH [OF rest, of m mu] obtain m' mu' where
      r: "max_child ns c ks (m, mu) = Inr (m', mu')" and
      d: "(\<forall>k \<in> set ks. u k \<le> mu) \<and> m' = m \<and> mu' = mu \<or>
      (\<exists>pre k post. ks = pre @ k # post \<and> m' = Some k \<and> mu' = u k \<and> mu < u k \<and>
         (\<forall>j \<in> set pre. u j < u k) \<and> (\<forall>j \<in> set post. u j \<le> u k))"
      by blast
    have e: "max_child ns c (a # ks) (m, mu) = Inr (m', mu')"
      using a False r by simp
    from d show ?thesis
    proof
      assume "(\<forall>k \<in> set ks. u k \<le> mu) \<and> m' = m \<and> mu' = mu"
      with False e show ?thesis by auto
    next
      assume "\<exists>pre k post. ks = pre @ k # post \<and> m' = Some k \<and> mu' = u k \<and> mu < u k \<and>
         (\<forall>j \<in> set pre. u j < u k) \<and> (\<forall>j \<in> set post. u j \<le> u k)"
      then obtain pre k post where
        "ks = pre @ k # post" "m' = Some k" "mu' = u k" "mu < u k"
         "\<forall>j \<in> set pre. u j < u k" "\<forall>j \<in> set post. u j \<le> u k"
        by blast
      then have "a # ks = (a # pre) @ k # post \<and> m' = Some k \<and> mu' = u k \<and> mu < u k \<and>
         (\<forall>j \<in> set (a # pre). u j < u k) \<and> (\<forall>j \<in> set post. u j \<le> u k)"
        using False by simp
      with e show ?thesis by blast
    qed
  qed
qed

lemma first_unvisited_spec:
  "\<exists>k \<in> set ks. visits (ns ! k) = 0 \<Longrightarrow>
   \<exists>pre k post. ks = pre @ k # post \<and> first_unvisited ns ks = Some k \<and> visits (ns ! k) = 0 \<and>
      (\<forall>j \<in> set pre. visits (ns ! j) \<noteq> 0)"
proof (induction ks)
  case Nil
  then show ?case by simp
next
  case (Cons a ks)
  show ?case
  proof (cases "visits (ns ! a) = 0")
    case True
    then have "a # ks = [] @ a # ks \<and> first_unvisited ns (a # ks) = Some a \<and> visits (ns ! a) = 0 \<and>
      (\<forall>j \<in> set []. visits (ns ! j) \<noteq> 0)" by simp
    then show ?thesis by blast
  next
    case False
    with Cons.prems have "\<exists>k \<in> set ks. visits (ns ! k) = 0" by auto
    from Cons.IH [OF this] obtain pre k post where
      "ks = pre @ k # post" "first_unvisited ns ks = Some k" "visits (ns ! k) = 0"
      "\<forall>j \<in> set pre. visits (ns ! j) \<noteq> 0" by blast
    with False have "a # ks = (a # pre) @ k # post \<and> first_unvisited ns (a # ks) = Some k \<and>
       visits (ns ! k) = 0 \<and> (\<forall>j \<in> set (a # pre). visits (ns ! j) \<noteq> 0)" by simp
    then show ?thesis by blast
  qed
qed

lemma full_expanded_iff:
  "full_expanded ns n \<longleftrightarrow> children (ns ! n) \<noteq> [] \<and> (\<forall>k \<in> set (children (ns ! n)). visits (ns ! k) \<noteq> 0)"
  by (simp add: full_expanded_def list_all_iff)

lemma select_leaf: "children (ns ! n) = [] \<Longrightarrow> select c ns n = Some (Inr (Some n))"
  by (subst select.simps) simp

lemma select_partial:
  "children (ns ! n) \<noteq> [] \<Longrightarrow> \<not> full_expanded ns n \<Longrightarrow>
   select c ns n = Some (Inr (first_unvisited ns (children (ns ! n))))"
  by (subst select.simps) simp

lemma select_full:
  "full_expanded ns n \<Longrightarrow>
   select c ns n =
     (case max_child ns c (children (ns ! n)) (None, - real_of_int maxsize) of
        Inl e \<Rightarrow> Some (Inl e)
      | Inr (None, max_ucb) \<Rightarrow> Some (Inl AttributeError)
      | Inr (Some max_node, max_ucb) \<Rightarrow> select c ns max_node)"
  by (subst select.simps) (simp add: full_expanded_iff)

text \<open>
  C6. \<^verbatim>\<open>select\<close> returns the node itself when it has no children. When every child has
  been visited (and the scores, none of which fails, are not all at or below
  \<^verbatim>\<open>-sys.maxsize\<close>), it is \<^verbatim>\<open>select\<close> of a child whose score is strictly above the scores
  of the children before it and at least the scores of the children after it. When
  some child has no visits, it returns the first such child in the order of the list.
\<close>

theorem select_spec:
  "(children (ns ! n) = [] \<longrightarrow> select c ns n = Some (Inr (Some n))) \<and>
   (children (ns ! n) \<noteq> [] \<and> (\<forall>k \<in> set (children (ns ! n)). visits (ns ! k) \<noteq> 0) \<and>
    (\<forall>k \<in> set (children (ns ! n)). get_ucb ns k c = Inr (u k)) \<and>
    (\<exists>k \<in> set (children (ns ! n)). - real_of_int maxsize < u k) \<longrightarrow>
      (\<exists>pre k post. children (ns ! n) = pre @ k # post \<and> select c ns n = select c ns k \<and>
         (\<forall>j \<in> set pre. u j < u k) \<and> (\<forall>j \<in> set post. u j \<le> u k))) \<and>
   (children (ns ! n) \<noteq> [] \<and> (\<exists>k \<in> set (children (ns ! n)). visits (ns ! k) = 0) \<longrightarrow>
      (\<exists>pre k post. children (ns ! n) = pre @ k # post \<and> select c ns n = Some (Inr (Some k)) \<and>
         visits (ns ! k) = 0 \<and> (\<forall>j \<in> set pre. visits (ns ! j) \<noteq> 0)))"
proof (intro conjI impI)
  assume "children (ns ! n) = []"
  then show "select c ns n = Some (Inr (Some n))" by (rule select_leaf)
next
  assume a: "children (ns ! n) \<noteq> [] \<and> (\<forall>k \<in> set (children (ns ! n)). visits (ns ! k) \<noteq> 0) \<and>
    (\<forall>k \<in> set (children (ns ! n)). get_ucb ns k c = Inr (u k)) \<and>
    (\<exists>k \<in> set (children (ns ! n)). - real_of_int maxsize < u k)"
  then have full: "full_expanded ns n" by (simp add: full_expanded_iff)
  from a have ucb: "\<forall>k \<in> set (children (ns ! n)). get_ucb ns k c = Inr (u k)" by simp
  from max_child_spec [OF ucb, of None "- real_of_int maxsize"] a
  obtain pre k post mu' where
    m: "max_child ns c (children (ns ! n)) (None, - real_of_int maxsize) = Inr (Some k, mu')"
    and k: "children (ns ! n) = pre @ k # post"
      "\<forall>j \<in> set pre. u j < u k" "\<forall>j \<in> set post. u j \<le> u k"
    by (metis linorder_not_less)
  have "select c ns n = select c ns k"
    by (simp add: select_full [OF full] m)
  with k show "\<exists>pre k post. children (ns ! n) = pre @ k # post \<and> select c ns n = select c ns k \<and>
         (\<forall>j \<in> set pre. u j < u k) \<and> (\<forall>j \<in> set post. u j \<le> u k)"
    by blast
next
  assume a: "children (ns ! n) \<noteq> [] \<and> (\<exists>k \<in> set (children (ns ! n)). visits (ns ! k) = 0)"
  then have nf: "\<not> full_expanded ns n" by (auto simp: full_expanded_iff)
  from a have "\<exists>k \<in> set (children (ns ! n)). visits (ns ! k) = 0" by simp
  from first_unvisited_spec [OF this] obtain pre k post where
    "children (ns ! n) = pre @ k # post" "first_unvisited ns (children (ns ! n)) = Some k"
    "visits (ns ! k) = 0" "\<forall>j \<in> set pre. visits (ns ! j) \<noteq> 0"
    by blast
  moreover from a nf have "select c ns n = Some (Inr (first_unvisited ns (children (ns ! n))))"
    by (simp add: select_partial)
  ultimately show "\<exists>pre k post. children (ns ! n) = pre @ k # post \<and>
         select c ns n = Some (Inr (Some k)) \<and>
         visits (ns ! k) = 0 \<and> (\<forall>j \<in> set pre. visits (ns ! j) \<noteq> 0)"
    by auto
qed

lemma round3_scores:
  "get_ucb round3_tree 1 (3 / 2) = Inr (11 + 3 / 2 * sqrt (2 * ln 3))"
  "get_ucb round3_tree 2 (3 / 2) = Inr (14 + 3 / 2 * sqrt (2 * ln 3))"
  by (simp_all add: get_ucb_visited [where p = 0] round3_tree_def Node_def)

lemma round3_select: "select (3 / 2) round3_tree 0 = Some (Inr (Some 2))"
proof -
  have f: "full_expanded round3_tree 0"
    by (simp add: full_expanded_def round3_tree_def Node_def)
  have c: "children (round3_tree ! 0) = [1, 2]" "children (round3_tree ! 2) = []"
    by (simp_all add: round3_tree_def Node_def)
  have s: "0 \<le> sqrt (2 * ln 3)" by simp
  have ms: "real_of_int maxsize = 9223372036854775807" by (simp add: maxsize_def)
  have c1: "- real_of_int maxsize < 11 + 3 / 2 * sqrt (2 * ln 3)"
    using s ms by linarith
  have m2: "max_child round3_tree (3 / 2) [2] (Some 1, 11 + 3 / 2 * sqrt (2 * ln 3))
     = Inr (Some 2, 14 + 3 / 2 * sqrt (2 * ln 3))"
    by (simp add: round3_scores)
  have m: "max_child round3_tree (3 / 2) [1, 2] (None, - real_of_int maxsize)
     = Inr (Some 2, 14 + 3 / 2 * sqrt (2 * ln 3))"
    using c1 m2 by (simp add: round3_scores [unfolded One_nat_def])
  show ?thesis
    by (simp only: select_full [OF f] c(1) m sum.case prod.case option.case select_leaf [OF c(2)])
qed

theorem select_spec_witness:
  "children (round3_tree ! 1) = [] \<and> select (3 / 2) round3_tree 1 = Some (Inr (Some 1)) \<and>
   children (round3_tree ! 0) = [1, 2] \<and>
   visits (round3_tree ! 1) \<noteq> 0 \<and> visits (round3_tree ! 2) \<noteq> 0 \<and>
   get_ucb round3_tree 1 (3 / 2) = Inr (11 + 3 / 2 * sqrt (2 * ln 3)) \<and>
   get_ucb round3_tree 2 (3 / 2) = Inr (14 + 3 / 2 * sqrt (2 * ln 3)) \<and>
   select (3 / 2) round3_tree 0 = Some (Inr (Some 2)) \<and>
   children (round2_tree ! 0) = [1, 2] \<and> visits (round2_tree ! 1) \<noteq> 0 \<and>
   visits (round2_tree ! 2) = 0 \<and>
   select (3 / 2) round2_tree 0 = Some (Inr (Some 2))"
proof -
  have a: "children (round3_tree ! 1) = []" "children (round3_tree ! 0) = [1, 2]"
    "visits (round3_tree ! 1) \<noteq> 0" "visits (round3_tree ! 2) \<noteq> 0"
    by (simp_all add: round3_tree_def Node_def)
  have c: "children (round2_tree ! 0) = [1, 2]" "visits (round2_tree ! 1) \<noteq> 0"
    "visits (round2_tree ! 2) = 0"
    by (simp_all add: round2_tree_def Node_def)
  have d: "select (3 / 2) round2_tree 0 = Some (Inr (Some 2))"
    by (subst select.simps) (simp add: round2_tree_def Node_def full_expanded_def)
  show ?thesis
    using a c d round3_select round3_scores
      select_spec [of round3_tree 1 "3 / 2" "\<lambda>k. real k * 3 + 8 + 3 / 2 * sqrt (2 * ln 3)"]
      select_spec [of round3_tree 0 "3 / 2" "\<lambda>k. real k * 3 + 8 + 3 / 2 * sqrt (2 * ln 3)"]
      select_spec [of round2_tree 0 "3 / 2" "\<lambda>k. real k * 3 + 8 + 3 / 2 * sqrt (2 * ln 3)"]
    by simp
qed

section \<open>A root without legal actions\<close>

lemma stimulate_returns:
  assumes "now_board (ns ! n) < length bs"
  shows "\<exists>r bs' rnd'. stimulate g self n (bs, ns, rnd) = (Inr r, bs', rnd') \<and>
     length bs' = Suc (length bs) \<and> (\<forall>i < length bs. bs' ! i = bs ! i)"
proof -
  from stimulate_loop_start [OF assms, of g "color (ns ! n)" rnd]
  obtain bs' col' count' rnd' where
    run: "stimulate_loop g (now_board (ns ! n)) (length bs)
        (bs @ [bs ! now_board (ns ! n)], color (ns ! n), 0, rnd) = (Inr (), bs', col', count', rnd')"
    and fr: "length bs' = Suc (length bs)" "\<forall>i < length bs. bs' ! i = bs ! i"
    by blast
  from stimulate_unfold [OF run, of self] fr show ?thesis by blast
qed

lemma uct_iter_lone_root:
  assumes a: "a < length bs" and none: "get_legal_actions g (bs ! a) c = []"
  shows "\<exists>bs' rw' rnd'.
     uct_iter g self 0 (bs, [lone_root a c v rw], rnd) =
       Some (Inr (), bs', [lone_root a c (Suc v) rw'], rnd') \<and>
     length bs' = Suc (length bs) \<and> (\<forall>i < length bs. bs' ! i = bs ! i)"
proof -
  let ?ns = "[lone_root a c v rw :: 'b node]"
  have sel: "select (ucb_param self) ?ns 0 = Some (Inr (Some 0))"
    by (rule select_leaf) (simp add: lone_root_def Node_def)
  have ext: "extend g 0 (bs, ?ns) = (0, bs, ?ns)"
  proof (cases "v = 0")
    case True
    then show ?thesis by (simp add: extend_unvisited lone_root_def Node_def)
  next
    case False
    have "extend g 0 (bs, ?ns) =
      (let acts = get_legal_actions g (bs ! now_board (?ns ! 0)) (color (?ns ! 0));
          kids = children (?ns ! 0) @ [length ?ns..<length ?ns + length acts]
      in (if kids = [] then 0 else kids ! 0,
          bs @ map (\<lambda>act. move g act (color (?ns ! 0)) (bs ! now_board (?ns ! 0))) acts,
          ?ns[0 := (?ns ! 0)\<lparr>children := kids\<rparr>]
            @ map (\<lambda>k. Node (length bs + k) (Some 0) (Some (acts ! k)) (opponent (color (?ns ! 0))))
                [0..<length acts]))"
      using a False by (intro extend_visited) (simp_all add: lone_root_def Node_def)
    also have "\<dots> = (0, bs, ?ns)"
      using none by (simp add: lone_root_def Node_def Let_def)
    finally show ?thesis .
  qed
  have "now_board (?ns ! 0) < length bs" using a by (simp add: lone_root_def Node_def)
  from stimulate_returns [OF this, of g self rnd] obtain r bs' rnd' where
    st: "stimulate g self 0 (bs, ?ns, rnd) = (Inr r, bs', rnd')"
    and fr: "length bs' = Suc (length bs)" "\<forall>i < length bs. bs' ! i = bs ! i"
    by blast
  define rw' where "rw' = (if c = pcolor self then rw + real_of_int r else rw - real_of_int r)"
  have bk: "backup self (Some 0) r ?ns = Some [lone_root a c (Suc v) rw']"
    by (simp add: backup_Some backup_node_def lone_root_def Node_def rw'_def)
  have "uct_iter g self 0 (bs, ?ns, rnd) = Some (Inr (), bs', [lone_root a c (Suc v) rw'], rnd')"
    by (simp add: uct_iter_def sel ext st bk)
  with fr show ?thesis by blast
qed

lemma uct_loop_lone_root:
  assumes "a < length bs" and "get_legal_actions g (bs ! a) c = []"
  shows "\<exists>bs' rw' rnd'.
     uct_loop g self k 0 (bs, [lone_root a c v rw], rnd) =
       Some (Inr (), bs', [lone_root a c (v + k) rw'], rnd') \<and>
     length bs' = length bs + k \<and> (\<forall>i < length bs. bs' ! i = bs ! i)"
  using assms
proof (induction k arbitrary: bs v rw rnd)
  case 0
  have "uct_loop g self 0 0 (bs, [lone_root a c v rw], rnd) =
       Some (Inr (), bs, [lone_root a c (v + 0) rw], rnd)" by simp
  then show ?case by fastforce
next
  case (Suc k)
  from uct_iter_lone_root [OF Suc.prems, of self v rw rnd] obtain bs1 rw1 rnd1 where
    it: "uct_iter g self 0 (bs, [lone_root a c v rw], rnd) =
       Some (Inr (), bs1, [lone_root a c (Suc v) rw1], rnd1)"
    and fr: "length bs1 = Suc (length bs)" "\<forall>i < length bs. bs1 ! i = bs ! i"
    by blast
  from fr Suc.prems have a1: "a < length bs1" "get_legal_actions g (bs1 ! a) c = []" by simp_all
  from Suc.IH [OF a1, of "Suc v" rw1 rnd1] obtain bs' rw' rnd' where
    lp: "uct_loop g self k 0 (bs1, [lone_root a c (Suc v) rw1], rnd1) =
       Some (Inr (), bs', [lone_root a c (Suc v + k) rw'], rnd')"
    and fr': "length bs' = length bs1 + k" "\<forall>i < length bs1. bs' ! i = bs1 ! i"
    by blast
  have "uct_loop g self (Suc k) 0 (bs, [lone_root a c v rw], rnd) =
       Some (Inr (), bs', [lone_root a c (v + Suc k) rw'], rnd')"
    using it lp by simp
  moreover have "length bs' = length bs + Suc k" "\<forall>i < length bs. bs' ! i = bs ! i"
    using fr fr' by simp_all
  ultimately show ?case by blast
qed


lemma lone_root_fresh: "Node a None None c = lone_root a c 0 0"
  by (simp add: lone_root_def Node_def)

lemma pass_row_none: "get_legal_actions row_game pass_row Black = []" "\<not> game_over row_game pass_row"
  by (simp_all add: row_defs pass_row_def upt_conv_Cons)

text \<open>
  C1. The code does not do what the claim says. When the colour to move has no legal
  action on the board given to \<^verbatim>\<open>get_move\<close>, whether the opponent can move or not, the
  loop of \<^verbatim>\<open>uct\<close> runs all of its \<^verbatim>\<open>max_times\<close> passes, each of which visits the root
  and gives it no child; then \<^verbatim>\<open>max_node\<close> is still \<^verbatim>\<open>None\<close> and \<^verbatim>\<open>max_node.action\<close>
  raises AttributeError. \<^verbatim>\<open>get_move\<close> so ends with an exception, not with a value that
  says that no move is available, and the root has been visited \<^verbatim>\<open>max_times\<close> times.
\<close>

theorem get_move_no_legal_move:
  assumes "board < length bs" and "get_legal_actions g (bs ! board) (pcolor self) = []"
  shows "\<exists>bs' rw rnd'.
     get_move g self board (bs, rnd) =
       Some (Inl AttributeError, bs',
             [(Node (length bs) None None (pcolor self))\<lparr>visits := max_times self, reward := rw\<rparr>],
             rnd')"
proof -
  let ?bs1 = "bs @ [bs ! board]"
  have a: "length bs < length ?bs1" by simp
  have n: "get_legal_actions g (?bs1 ! length bs) (pcolor self) = []"
    using assms(2) by simp
  from uct_loop_lone_root [OF a n, of self "max_times self" 0 0 rnd] obtain bs' rw' rnd' where
    lp: "uct_loop g self (max_times self) 0 (?bs1, [lone_root (length bs) (pcolor self) 0 0], rnd) =
       Some (Inr (), bs', [lone_root (length bs) (pcolor self) (0 + max_times self) rw'], rnd')"
    by blast
  have ch: "children (lone_root (length bs) (pcolor self) (max_times self) rw' :: 'b node) = []"
    by (simp add: lone_root_def Node_def)
  have "uct g self (max_times self) 0 (?bs1, [lone_root (length bs) (pcolor self) 0 0], rnd) =
      Some (Inl AttributeError, bs',
            [lone_root (length bs) (pcolor self) (max_times self) rw'], rnd')"
    using lp by (simp add: uct_def ch)
  then have "get_move g self board (bs, rnd) =
      Some (Inl AttributeError, bs',
            [lone_root (length bs) (pcolor self) (max_times self) rw'], rnd')"
    by (simp add: get_move_def deepcopy_def lone_root_fresh)
  then show ?thesis by (auto simp: lone_root_def)
qed

theorem get_move_no_legal_move_witness:
  "(0::nat) < length [pass_row] \<and>
   get_legal_actions row_game ([pass_row] ! 0) (pcolor (AIPlayer Black)) = [] \<and>
   \<not> game_over row_game ([pass_row] ! 0) \<and>
   (\<exists>bs' rw rnd'.
     get_move row_game (AIPlayer Black) 0 ([pass_row], zero_draws) =
       Some (Inl AttributeError, bs',
             [(Node (length [pass_row]) None None (pcolor (AIPlayer Black)))
                \<lparr>visits := max_times (AIPlayer Black), reward := rw\<rparr>],
             rnd')) \<and>
   max_times (AIPlayer Black) = 50"
proof -
  have h1: "(0::nat) < length [pass_row]" by simp
  have h2: "get_legal_actions row_game ([pass_row] ! 0) (pcolor (AIPlayer Black)) = []"
    by (simp add: pass_row_none AIPlayer_def)
  have h3: "\<not> game_over row_game ([pass_row] ! 0)" by (simp add: pass_row_none)
  have h4: "max_times (AIPlayer Black) = 50" by (simp add: AIPlayer_def)
  from h1 h2 h3 h4 get_move_no_legal_move [OF h1 h2, of zero_draws] show ?thesis by blast
qed

lemma full_row_over: "game_over row_game full_row" "get_legal_actions row_game full_row Black = []"
  by (simp_all add: row_defs full_row_def upt_conv_Cons)

text \<open>
  The same on a full row, where neither side can move: an AttributeError after 50
  passes of the loop.
\<close>

lemma get_move_terminal:
  "game_over row_game ([full_row] ! 0) \<and>
   get_move row_game (AIPlayer Black) 0 ([full_row], zero_draws) \<noteq> None \<and>
   fst (the (get_move row_game (AIPlayer Black) 0 ([full_row], zero_draws))) = Inl AttributeError \<and>
   visits (fst (snd (snd (the (get_move row_game (AIPlayer Black) 0 ([full_row], zero_draws)))))
           ! 0) = 50"
proof -
  have a: "(1::nat) < length [full_row, full_row]" by simp
  have n: "get_legal_actions row_game ([full_row, full_row] ! 1) Black = []"
    by (simp add: full_row_over)
  from uct_loop_lone_root [OF a n, of "AIPlayer Black" 50 0 0 zero_draws]
  obtain bs' rw' rnd' where
    lp: "uct_loop row_game (AIPlayer Black) 50 0
       ([full_row, full_row], [lone_root 1 Black 0 0], zero_draws) =
       Some (Inr (), bs', [lone_root 1 Black (0 + 50) rw'], rnd')"
    by blast
  have "get_move row_game (AIPlayer Black) 0 ([full_row], zero_draws) =
      Some (Inl AttributeError, bs', [lone_root 1 Black 50 rw'], rnd')"
    using lp by (simp add: get_move_def deepcopy_def uct_def lone_root_fresh AIPlayer_def)
      (simp add: lone_root_def Node_def)
  then show ?thesis by (simp add: full_row_over lone_root_def)
qed

section \<open>Selection returns, on the trees of the engine\<close>

lemma kids_okD:
  assumes "kids_ok ns" and "i < length ns" and "k \<in> set (children (ns ! i))"
  shows "i < k \<and> k < length ns"
proof -
  from assms(1) have a: "\<forall>i \<in> set [0..<length ns]. \<forall>k \<in> set (children (ns ! i)). i < k \<and> k < length ns"
    unfolding kids_ok_def list_all_iff .
  from assms(2) have "i \<in> set [0..<length ns]" by simp
  from a [rule_format, OF this assms(3)] show ?thesis .
qed

lemma kids_okI:
  assumes "\<And>i k. i < length ns \<Longrightarrow> k \<in> set (children (ns ! i)) \<Longrightarrow> i < k \<and> k < length ns"
  shows "kids_ok ns"
  unfolding kids_ok_def list_all_iff
proof (intro ballI)
  fix i k assume i: "i \<in> set [0..<length ns]" and k: "k \<in> set (children (ns ! i))"
  from i have "i < length ns" by simp
  from assms [OF this k] show "i < k \<and> k < length ns" .
qed

lemma first_unvisited_in: "first_unvisited ns ks = Some k \<Longrightarrow> k \<in> set ks"
  by (induction ks) (auto split: if_splits)

lemma max_child_in:
  "max_child ns c ks (m, mu) = Inr (Some k, u) \<Longrightarrow> m = Some k \<or> k \<in> set ks"
proof (induction ks arbitrary: m mu)
  case Nil
  then show ?case by simp
next
  case (Cons a ks)
  show ?case
  proof (cases "get_ucb ns a c")
    case (Inl e)
    with Cons.prems show ?thesis by simp
  next
    case (Inr x)
    show ?thesis
    proof (cases "mu < x")
      case True
      with Cons.prems Inr have "max_child ns c ks (Some a, x) = Inr (Some k, u)" by simp
      from Cons.IH [OF this] show ?thesis by auto
    next
      case False
      with Cons.prems Inr have "max_child ns c ks (m, mu) = Inr (Some k, u)" by simp
      from Cons.IH [OF this] show ?thesis by auto
    qed
  qed
qed

lemma select_returns:
  "kids_ok ns \<Longrightarrow> n < length ns \<Longrightarrow>
   \<exists>r. select c ns n = Some r \<and> (\<forall>k. r = Inr (Some k) \<longrightarrow> k < length ns)"
proof (induction "length ns - n" arbitrary: n rule: less_induct)
  case less
  show ?case
  proof (cases "children (ns ! n) = []")
    case True
    with less.prems show ?thesis by (simp add: select_leaf)
  next
    case False
    show ?thesis
    proof (cases "full_expanded ns n")
      case nf: False
      have "\<forall>k. first_unvisited ns (children (ns ! n)) = Some k \<longrightarrow> k < length ns"
        using less.prems by (auto dest!: first_unvisited_in dest: kids_okD)
      with False nf show ?thesis by (simp add: select_partial)
    next
      case True
      show ?thesis
      proof (cases "max_child ns c (children (ns ! n)) (None, - real_of_int maxsize)")
        case (Inl e)
        then show ?thesis by (simp add: select_full [OF True])
      next
        case (Inr p)
        obtain m u where p: "p = (m, u)" by (cases p)
        show ?thesis
        proof (cases m)
          case None
          with Inr p show ?thesis by (simp add: select_full [OF True])
        next
          case (Some k)
          with Inr p max_child_in [of ns c "children (ns ! n)" None "- real_of_int maxsize" k u]
          have "k \<in> set (children (ns ! n))" by simp
          from kids_okD [OF less.prems(1,2) this] have k: "n < k" "k < length ns" by simp_all
          then have "length ns - k < length ns - n" by simp
          from less.hyps [OF this less.prems(1) k(2)] Inr p Some
          show ?thesis by (simp add: select_full [OF True])
        qed
      qed
    qed
  qed
qed

lemma extend_visitedE:
  assumes "n < length ns" and "now_board (ns ! n) < length bs" and "visits (ns ! n) \<noteq> 0"
    and "extend g n (bs, ns) = (leaf, bs', ns')"
  obtains acts kids where
    "acts = get_legal_actions g (bs ! now_board (ns ! n)) (color (ns ! n))"
    "kids = children (ns ! n) @ [length ns..<length ns + length acts]"
    "leaf = (if kids = [] then n else kids ! 0)"
    "bs' = bs @ map (\<lambda>act. move g act (color (ns ! n)) (bs ! now_board (ns ! n))) acts"
    "ns' = ns[n := (ns ! n)\<lparr>children := kids\<rparr>]
            @ map (\<lambda>k. Node (length bs + k) (Some n) (Some (acts ! k)) (opponent (color (ns ! n))))
                [0..<length acts]"
proof -
  define acts where "acts = get_legal_actions g (bs ! now_board (ns ! n)) (color (ns ! n))"
  define kids where "kids = children (ns ! n) @ [length ns..<length ns + length acts]"
  from assms(4) [symmetric] extend_visited [OF assms(1-3), of g, unfolded Let_def]
  have "(leaf, bs', ns') =
      (if kids = [] then n else kids ! 0,
       bs @ map (\<lambda>act. move g act (color (ns ! n)) (bs ! now_board (ns ! n))) acts,
       ns[n := (ns ! n)\<lparr>children := kids\<rparr>]
            @ map (\<lambda>k. Node (length bs + k) (Some n) (Some (acts ! k)) (opponent (color (ns ! n))))
                [0..<length acts])"
    unfolding kids_def acts_def by (rule trans)
  then have "leaf = (if kids = [] then n else kids ! 0) \<and>
      bs' = bs @ map (\<lambda>act. move g act (color (ns ! n)) (bs ! now_board (ns ! n))) acts \<and>
      ns' = ns[n := (ns ! n)\<lparr>children := kids\<rparr>]
            @ map (\<lambda>k. Node (length bs + k) (Some n) (Some (acts ! k)) (opponent (color (ns ! n))))
                [0..<length acts]"
    by (simp only: prod.inject)
  with that [OF acts_def kids_def] show thesis by blast
qed

lemma kids_ok_extend:
  assumes k: "kids_ok ns" and n: "n < length ns" and b: "now_board (ns ! n) < length bs"
    and e: "extend g n (bs, ns) = (leaf, bs', ns')"
  shows "kids_ok ns' \<and> leaf < length ns' \<and> length ns \<le> length ns' \<and> prefix bs bs' \<and>
     (\<forall>i < length ns. now_board (ns' ! i) = now_board (ns ! i))"
proof (cases "visits (ns ! n) = 0")
  case True
  with e k n show ?thesis by (simp add: extend_unvisited)
next
  case False
  from extend_visitedE [OF n b False e] obtain acts kids where
    kids: "kids = children (ns ! n) @ [length ns..<length ns + length acts]"
    and leaf: "leaf = (if kids = [] then n else kids ! 0)"
    and bs': "bs' = bs @ map (\<lambda>act. move g act (color (ns ! n)) (bs ! now_board (ns ! n))) acts"
    and ns': "ns' = ns[n := (ns ! n)\<lparr>children := kids\<rparr>]
            @ map (\<lambda>k. Node (length bs + k) (Some n) (Some (acts ! k)) (opponent (color (ns ! n))))
                [0..<length acts]"
    by blast
  have len: "length ns' = length ns + length acts" by (simp add: ns')
  have kn: "\<forall>k \<in> set kids. n < k \<and> k < length ns'"
  proof
    fix j assume "j \<in> set kids"
    then have "j \<in> set (children (ns ! n)) \<or> (length ns \<le> j \<and> j < length ns + length acts)"
      by (auto simp: kids)
    then show "n < j \<and> j < length ns'"
      using kids_okD [OF k n, of j] n len by auto
  qed
  have old: "ns' ! i = (if i = n then (ns ! n)\<lparr>children := kids\<rparr> else ns ! i)"
    if "i < length ns" for i
    using that by (simp add: ns' nth_append)
  have new: "children (ns' ! i) = []" if "length ns \<le> i" "i < length ns'" for i
    using that by (simp add: ns' nth_append Node_def)
  have ok: "kids_ok ns'"
  proof (rule kids_okI)
    fix i j assume i: "i < length ns'" and jj: "j \<in> set (children (ns' ! i))"
    show "i < j \<and> j < length ns'"
    proof (cases "i < length ns")
      case False
      with new [of i] i jj show ?thesis by simp
    next
      case True
      show ?thesis
      proof (cases "i = n")
        case True
        with jj n kn show ?thesis by (simp add: old)
      next
        case False
        with jj True have "j \<in> set (children (ns ! i))" by (simp add: old)
        from kids_okD [OF k True this] len show ?thesis by simp
      qed
    qed
  qed
  have "leaf < length ns'"
  proof (cases "kids = []")
    case True
    with leaf n len show ?thesis by simp
  next
    case False
    then have "kids ! 0 \<in> set kids" by simp
    with kn leaf False show ?thesis by auto
  qed
  moreover have "\<forall>i < length ns. now_board (ns' ! i) = now_board (ns ! i)"
    by (simp add: old)
  moreover have "prefix bs bs'" by (simp add: bs')
  ultimately show ?thesis using ok len by simp
qed

lemma kids_ok_backup:
  assumes k: "kids_ok ns" and po: "parents_ok ns" and n: "n < length ns"
  shows "\<exists>ns'. backup self (Some n) r ns = Some ns' \<and> kids_ok ns' \<and> length ns' = length ns \<and>
     (\<forall>i < length ns. now_board (ns' ! i) = now_board (ns ! i))"
proof -
  let ?ns' = "map (\<lambda>i. if i \<in> set (chain ns n) then backup_node self r (ns ! i) else ns ! i)
               [0..<length ns]"
  have b: "backup self (Some n) r ns = Some ?ns'" by (rule backup_spec [OF po n])
  have f: "children (?ns' ! i) = children (ns ! i)" "now_board (?ns' ! i) = now_board (ns ! i)"
    if "i < length ns" for i
    using that by (simp_all add: backup_node_def)
  have "kids_ok ?ns'"
  proof (rule kids_okI)
    fix i j assume i: "i < length ?ns'" and j: "j \<in> set (children (?ns' ! i))"
    from i have i': "i < length ns" by simp
    from j f(1) [OF i'] have "j \<in> set (children (ns ! i))" by simp
    from kids_okD [OF k i' this] show "i < j \<and> j < length ?ns'" by simp
  qed
  with b f show ?thesis by simp
qed

section \<open>What selection hands to expansion\<close>

lemma first_unvisited_visits: "first_unvisited ns ks = Some k \<Longrightarrow> visits (ns ! k) = 0"
  by (induction ks) (auto split: if_splits)

lemma engine_inv_fresh:
  assumes "board < length bs" and "deepcopy board bs = (root_board, bs1)"
  shows "engine_inv bs1 [Node root_board None None c]"
proof -
  have "kids_ok [Node root_board None None c]"
    by (rule kids_okI) (simp add: Node_def)
  moreover have "\<forall>i < length [Node root_board None None c].
      visits ([Node root_board None None c] ! i) = 0 \<longrightarrow> children ([Node root_board None None c] ! i) = []"
    by (simp add: Node_def)
  ultimately show ?thesis
    using tree_inv_fresh [OF assms, of c] unfolding engine_inv_def by blast
qed

lemma engine_inv_extend:
  assumes inv: "engine_inv bs ns" and n: "n < length ns"
    and e: "extend g n (bs, ns) = (leaf, bs', ns')"
  shows "engine_inv bs' ns'"
proof -
  from inv have ti: "tree_inv bs ns" and ko: "kids_ok ns"
    and lf: "\<forall>i < length ns. visits (ns ! i) = 0 \<longrightarrow> children (ns ! i) = []"
    unfolding engine_inv_def by blast+
  from ti n have b: "now_board (ns ! n) < length bs" by (simp add: tree_inv_def)
  have ti': "tree_inv bs' ns'" by (rule tree_inv_extend [OF ti n e])
  have ko': "kids_ok ns'" using kids_ok_extend [OF ko n b e] by blast
  have lf': "\<forall>i < length ns'. visits (ns' ! i) = 0 \<longrightarrow> children (ns' ! i) = []"
  proof (cases "visits (ns ! n) = 0")
    case True
    with e lf show ?thesis by (simp add: extend_unvisited)
  next
    case False
    from extend_visitedE [OF n b False e] obtain acts kids where
      ns': "ns' = ns[n := (ns ! n)\<lparr>children := kids\<rparr>]
            @ map (\<lambda>k. Node (length bs + k) (Some n) (Some (acts ! k)) (opponent (color (ns ! n))))
                [0..<length acts]"
      by blast
    show ?thesis
    proof (intro allI impI)
      fix i assume i: "i < length ns'" and v: "visits (ns' ! i) = 0"
      show "children (ns' ! i) = []"
      proof (cases "i < length ns")
        case True
        have "ns' ! i = (if i = n then (ns ! n)\<lparr>children := kids\<rparr> else ns ! i)"
          using True by (simp add: ns' nth_append)
        with v False lf True show ?thesis by (cases "i = n") simp_all
      next
        case False
        with i show ?thesis by (simp add: ns' nth_append Node_def)
      qed
    qed
  qed
  from ti' ko' lf' show ?thesis unfolding engine_inv_def by blast
qed

lemma engine_inv_stimulate:
  assumes "engine_inv bs ns" and "stimulate g self n (bs, ns, rnd) = (res, bs', rnd')"
  shows "engine_inv bs' ns"
  using assms(1) tree_inv_stimulate [OF _ assms(2)] unfolding engine_inv_def by blast

lemma engine_inv_backup:
  assumes inv: "engine_inv bs ns" and n: "n < length ns"
    and b: "backup self (Some n) r ns = Some ns'"
  shows "engine_inv bs ns'"
proof -
  from inv have ti: "tree_inv bs ns" and ko: "kids_ok ns"
    and lf: "\<forall>i < length ns. visits (ns ! i) = 0 \<longrightarrow> children (ns ! i) = []"
    unfolding engine_inv_def by blast+
  from ti have po: "parents_ok ns" by (simp add: tree_inv_def)
  have ti': "tree_inv bs ns'" by (rule tree_inv_backup [OF ti n b])
  from kids_ok_backup [OF ko po n, of self r] b have ko': "kids_ok ns'" by simp
  from backup_spec [OF po n, of self r] b
  have ns': "ns' = map (\<lambda>i. if i \<in> set (chain ns n) then backup_node self r (ns ! i) else ns ! i)
               [0..<length ns]"
    by simp
  have lf': "\<forall>i < length ns'. visits (ns' ! i) = 0 \<longrightarrow> children (ns' ! i) = []"
  proof (intro allI impI)
    fix i assume i: "i < length ns'" and v: "visits (ns' ! i) = 0"
    from i have i': "i < length ns" by (simp add: ns')
    have c: "children (ns' ! i) = children (ns ! i)"
      using i' by (simp add: ns' backup_node_def)
    have "visits (ns ! i) = 0"
      using i' v by (simp add: ns' backup_node_def split: if_splits)
    with lf i' c show "children (ns' ! i) = []" by simp
  qed
  from ti' ko' lf' show ?thesis unfolding engine_inv_def by blast
qed

lemma reachable_engine_inv: "reachable g self s \<Longrightarrow> engine_inv (fst s) (fst (snd s))"
proof (induction rule: reachable.induct)
  case (fresh_root board bs root_board bs1 rnd)
  then show ?case by (simp add: engine_inv_fresh)
next
  case (by_select bs ns rnd n c res)
  then show ?case by simp
next
  case (by_extend bs ns rnd n leaf bs' ns')
  then show ?case by (simp add: engine_inv_extend)
next
  case (by_stimulate bs ns rnd n res bs' rnd')
  then show ?case by (simp add: engine_inv_stimulate)
next
  case (by_backup bs ns rnd n r ns')
  then show ?case by (simp add: engine_inv_backup)
qed

lemma select_childless:
  assumes ko: "kids_ok ns" and lf: "\<forall>i < length ns. visits (ns ! i) = 0 \<longrightarrow> children (ns ! i) = []"
  shows "m < length ns \<Longrightarrow> select c ns m = Some (Inr (Some n)) \<Longrightarrow>
     n < length ns \<and> children (ns ! n) = []"
proof (induction "length ns - m" arbitrary: m rule: less_induct)
  case less
  show ?case
  proof (cases "children (ns ! m) = []")
    case True
    with less.prems show ?thesis by (simp add: select_leaf)
  next
    case False
    show ?thesis
    proof (cases "full_expanded ns m")
      case nf: False
      from less.prems(2) False nf have fu: "first_unvisited ns (children (ns ! m)) = Some n"
        by (simp add: select_partial)
      from first_unvisited_in [OF fu] have "n \<in> set (children (ns ! m))" .
      from kids_okD [OF ko less.prems(1) this] have nl: "n < length ns" by simp
      from first_unvisited_visits [OF fu] lf nl show ?thesis by simp
    next
      case True
      show ?thesis
      proof (cases "max_child ns c (children (ns ! m)) (None, - real_of_int maxsize)")
        case (Inl e)
        with less.prems(2) show ?thesis by (simp add: select_full [OF True])
      next
        case (Inr p)
        obtain mx u where p: "p = (mx, u)" by (cases p)
        show ?thesis
        proof (cases mx)
          case None
          with Inr p less.prems(2) show ?thesis by (simp add: select_full [OF True])
        next
          case (Some k)
          with Inr p max_child_in [of ns c "children (ns ! m)" None "- real_of_int maxsize" k u]
          have "k \<in> set (children (ns ! m))" by simp
          from kids_okD [OF ko less.prems(1) this] have k: "m < k" "k < length ns" by simp_all
          then have d: "length ns - k < length ns - m" by simp
          from less.prems(2) Inr p Some have "select c ns k = Some (Inr (Some n))"
            by (simp add: select_full [OF True])
          from less.hyps [OF d k(2) this] show ?thesis .
        qed
      qed
    qed
  qed
qed

lemma reachable_select_childless:
  assumes "reachable g self (bs, ns, rnd)" and "m < length ns"
    and "select c ns m = Some (Inr (Some n))"
  shows "n < length ns \<and> now_board (ns ! n) < length bs \<and> children (ns ! n) = []"
proof -
  from reachable_engine_inv [OF assms(1)] have inv: "engine_inv bs ns" by simp
  then have ko: "kids_ok ns"
    and lf: "\<forall>i < length ns. visits (ns ! i) = 0 \<longrightarrow> children (ns ! i) = []"
    and ti: "tree_inv bs ns"
    unfolding engine_inv_def by blast+
  from select_childless [OF ko lf assms(2,3)] have n: "n < length ns" "children (ns ! n) = []"
    by simp_all
  with ti show ?thesis by (simp add: tree_inv_def)
qed

section \<open>Expansion of the selected node\<close>

text \<open>
  C7. \<^verbatim>\<open>extend\<close> returns a node without visits as it is, with nothing changed. For a
  visited node it appends one child per legal action of the node's colour on the node's
  board, in the order of the actions: the child has the colour of the opponent, the node
  as parent, the action, no visits, no reward and no children, and its board is a new
  copy of the node's board with the action applied for the node's colour; no other board
  or node changes. It returns the first of the node's children, or the node itself when
  it has none: for a node that had no children, the node itself when there is no legal
  action, and the first child created otherwise. In every state of the engine, the node
  that \<^verbatim>\<open>select\<close> hands over has no children, so that is what \<^verbatim>\<open>extend\<close> returns there.
\<close>

theorem extend_spec:
  assumes "n < length ns" and "now_board (ns ! n) < length bs"
    and "acts = get_legal_actions g (bs ! now_board (ns ! n)) (color (ns ! n))"
  shows "(visits (ns ! n) = 0 \<longrightarrow> extend g n (bs, ns) = (n, bs, ns)) \<and>
   (visits (ns ! n) \<noteq> 0 \<longrightarrow>
     (\<exists>leaf bs' ns'. extend g n (bs, ns) = (leaf, bs', ns') \<and>
        length bs' = length bs + length acts \<and> length ns' = length ns + length acts \<and>
        (\<forall>i < length bs. bs' ! i = bs ! i) \<and>
        (\<forall>i < length ns. i \<noteq> n \<longrightarrow> ns' ! i = ns ! i) \<and>
        ns' ! n = (ns ! n)\<lparr>children := children (ns ! n) @ [length ns..<length ns + length acts]\<rparr> \<and>
        (\<forall>k < length acts.
           color (ns' ! (length ns + k)) = (if color (ns ! n) = Black then White else Black) \<and>
           parent (ns' ! (length ns + k)) = Some n \<and>
           action (ns' ! (length ns + k)) = Some (acts ! k) \<and>
           now_board (ns' ! (length ns + k)) = length bs + k \<and>
           visits (ns' ! (length ns + k)) = 0 \<and> reward (ns' ! (length ns + k)) = 0 \<and>
           children (ns' ! (length ns + k)) = [] \<and>
           bs' ! (length bs + k) = move g (acts ! k) (color (ns ! n)) (bs ! now_board (ns ! n))) \<and>
        leaf = (if children (ns' ! n) = [] then n else children (ns' ! n) ! 0) \<and>
        (children (ns ! n) = [] \<longrightarrow> leaf = (if acts = [] then n else length ns)))) \<and>
   (\<forall>self rnd c m.
      reachable g self (bs, ns, rnd) \<and> m < length ns \<and> select c ns m = Some (Inr (Some n)) \<longrightarrow>
        children (ns ! n) = [] \<and>
        fst (extend g n (bs, ns)) = (if visits (ns ! n) = 0 \<or> acts = [] then n else length ns))"
proof -
  have A: "visits (ns ! n) = 0 \<longrightarrow> extend g n (bs, ns) = (n, bs, ns)"
    by (simp add: extend_unvisited)
  have B: "\<exists>leaf bs' ns'. extend g n (bs, ns) = (leaf, bs', ns') \<and>
        length bs' = length bs + length acts \<and> length ns' = length ns + length acts \<and>
        (\<forall>i < length bs. bs' ! i = bs ! i) \<and>
        (\<forall>i < length ns. i \<noteq> n \<longrightarrow> ns' ! i = ns ! i) \<and>
        ns' ! n = (ns ! n)\<lparr>children := children (ns ! n) @ [length ns..<length ns + length acts]\<rparr> \<and>
        (\<forall>k < length acts.
           color (ns' ! (length ns + k)) = (if color (ns ! n) = Black then White else Black) \<and>
           parent (ns' ! (length ns + k)) = Some n \<and>
           action (ns' ! (length ns + k)) = Some (acts ! k) \<and>
           now_board (ns' ! (length ns + k)) = length bs + k \<and>
           visits (ns' ! (length ns + k)) = 0 \<and> reward (ns' ! (length ns + k)) = 0 \<and>
           children (ns' ! (length ns + k)) = [] \<and>
           bs' ! (length bs + k) = move g (acts ! k) (color (ns ! n)) (bs ! now_board (ns ! n))) \<and>
        leaf = (if children (ns' ! n) = [] then n else children (ns' ! n) ! 0) \<and>
        (children (ns ! n) = [] \<longrightarrow> leaf = (if acts = [] then n else length ns))"
    if v: "visits (ns ! n) \<noteq> 0"
  proof -
    obtain leaf bs' ns' where e: "extend g n (bs, ns) = (leaf, bs', ns')"
      by (cases "extend g n (bs, ns)")
    from extend_visitedE [OF assms(1,2) v e] assms(3) obtain kids where
      kids: "kids = children (ns ! n) @ [length ns..<length ns + length acts]"
      and leaf: "leaf = (if kids = [] then n else kids ! 0)"
      and bs': "bs' = bs @ map (\<lambda>act. move g act (color (ns ! n)) (bs ! now_board (ns ! n))) acts"
      and ns': "ns' = ns[n := (ns ! n)\<lparr>children := kids\<rparr>]
            @ map (\<lambda>k. Node (length bs + k) (Some n) (Some (acts ! k)) (opponent (color (ns ! n))))
                [0..<length acts]"
      by blast
    have 1: "length bs' = length bs + length acts" "length ns' = length ns + length acts"
      by (simp_all add: bs' ns')
    have 2: "\<forall>i < length bs. bs' ! i = bs ! i" by (simp add: bs' nth_append)
    have 3: "\<forall>i < length ns. i \<noteq> n \<longrightarrow> ns' ! i = ns ! i" by (simp add: ns' nth_append)
    have 4: "ns' ! n = (ns ! n)\<lparr>children := kids\<rparr>"
      using assms(1) by (simp add: ns' nth_append)
    have 5: "\<forall>k < length acts.
           color (ns' ! (length ns + k)) = (if color (ns ! n) = Black then White else Black) \<and>
           parent (ns' ! (length ns + k)) = Some n \<and>
           action (ns' ! (length ns + k)) = Some (acts ! k) \<and>
           now_board (ns' ! (length ns + k)) = length bs + k \<and>
           visits (ns' ! (length ns + k)) = 0 \<and> reward (ns' ! (length ns + k)) = 0 \<and>
           children (ns' ! (length ns + k)) = [] \<and>
           bs' ! (length bs + k) = move g (acts ! k) (color (ns ! n)) (bs ! now_board (ns ! n))"
      by (simp add: ns' bs' nth_append Node_def opponent_def)
    have 6: "leaf = (if children (ns' ! n) = [] then n else children (ns' ! n) ! 0)"
      by (simp add: 4 leaf)
    have 7: "children (ns ! n) = [] \<longrightarrow> leaf = (if acts = [] then n else length ns)"
    proof
      assume c: "children (ns ! n) = []"
      show "leaf = (if acts = [] then n else length ns)"
      proof (cases "acts = []")
        case True
        with c show ?thesis by (simp add: leaf kids)
      next
        case False
        then have "0 < length acts" by simp
        then have "[length ns..<length ns + length acts] ! 0 = length ns"
          and "[length ns..<length ns + length acts] \<noteq> []"
          by simp_all
        with c False show ?thesis by (simp add: leaf kids del: upt_eq_Nil_conv)
      qed
    qed
    from e 1 2 3 5 6 7 4 [unfolded kids] show ?thesis by blast
  qed
  have C: "children (ns ! n) = [] \<and>
        fst (extend g n (bs, ns)) = (if visits (ns ! n) = 0 \<or> acts = [] then n else length ns)"
    if r: "reachable g self (bs, ns, rnd)" and m: "m < length ns"
      and s: "select c ns m = Some (Inr (Some n))" for self rnd c m
  proof -
    from reachable_select_childless [OF r m s] have c: "children (ns ! n) = []" by simp
    show ?thesis
    proof (cases "visits (ns ! n) = 0")
      case True
      with c show ?thesis by (simp add: extend_unvisited)
    next
      case False
      from B [OF False] c False show ?thesis by auto
    qed
  qed
  from A B C show ?thesis by blast
qed


lemma reachable_grown: "reachable row_game (AIPlayer Black) (grown_boards, grown_tree, zero_draws)"
  using reachable_example by (simp add: grown_boards_def grown_tree_def Node_def)

lemma acts_after_first: "get_legal_actions row_game after_first White = [7]"
  by (simp add: row_defs after_first_def upt_conv_Cons)

lemma select_grown: "select (3 / 2) grown_tree 0 = Some (Inr (Some 1))"
  by (subst select.simps) (simp add: grown_tree_def full_expanded_def)

lemma extend_visited_root:
  "extend row_game 0 ([two_groups_row], visited_root) =
     (1,
      [two_groups_row, after_first,
       [None, Some Black, Some White, None, Some Black, Some Black, Some Black, None]],
      [\<lparr>visits = 1, reward = 3, now_board = 0, children = [1, 2], parent = None, action = None,
         color = Black\<rparr>,
       \<lparr>visits = 0, reward = 0, now_board = 1, children = [], parent = Some 0, action = Some 3,
         color = White\<rparr>,
       \<lparr>visits = 0, reward = 0, now_board = 2, children = [], parent = Some 0, action = Some 4,
         color = White\<rparr>])"
  using extend_two_groups by (simp add: Node_def)

theorem extend_spec_witness:
  "0 < length visited_root \<and> now_board (visited_root ! 0) < length [two_groups_row] \<and>
   [3, 4] = get_legal_actions row_game ([two_groups_row] ! now_board (visited_root ! 0))
              (color (visited_root ! 0)) \<and>
   visits (visited_root ! 0) \<noteq> 0 \<and> children (visited_root ! 0) = [] \<and>
   extend row_game 0 ([two_groups_row], visited_root) =
     (1,
      [two_groups_row, after_first,
       [None, Some Black, Some White, None, Some Black, Some Black, Some Black, None]],
      [\<lparr>visits = 1, reward = 3, now_board = 0, children = [1, 2], parent = None, action = None,
         color = Black\<rparr>,
       \<lparr>visits = 0, reward = 0, now_board = 1, children = [], parent = Some 0, action = Some 3,
         color = White\<rparr>,
       \<lparr>visits = 0, reward = 0, now_board = 2, children = [], parent = Some 0, action = Some 4,
         color = White\<rparr>]) \<and>
   reachable row_game (AIPlayer Black) (grown_boards, grown_tree, zero_draws) \<and>
   (1::nat) < length grown_tree \<and> now_board (grown_tree ! 1) < length grown_boards \<and>
   [7] = get_legal_actions row_game (grown_boards ! now_board (grown_tree ! 1))
           (color (grown_tree ! 1)) \<and>
   select (3 / 2) grown_tree 0 = Some (Inr (Some 1)) \<and>
   visits (grown_tree ! 1) = 0 \<and> children (grown_tree ! 1) = [] \<and>
   fst (extend row_game 1 (grown_boards, grown_tree)) = 1"
proof -
  have h1: "0 < length visited_root" by (simp add: visited_root_def)
  have h2: "now_board (visited_root ! 0) < length [two_groups_row]"
    by (simp add: visited_root_def Node_def)
  have h3: "[3, 4] = get_legal_actions row_game ([two_groups_row] ! now_board (visited_root ! 0))
              (color (visited_root ! 0))"
    by (simp add: visited_root_def Node_def acts_two_groups)
  have h4: "visits (visited_root ! 0) \<noteq> 0" "children (visited_root ! 0) = []"
    by (simp_all add: visited_root_def Node_def)
  have g1: "(1::nat) < length grown_tree" by (simp add: grown_tree_def)
  have g2: "now_board (grown_tree ! 1) < length grown_boards"
    by (simp add: grown_tree_def grown_boards_def)
  have g3: "[7] = get_legal_actions row_game (grown_boards ! now_board (grown_tree ! 1))
           (color (grown_tree ! 1))"
    by (simp add: grown_tree_def grown_boards_def acts_after_first)
  have g4: "visits (grown_tree ! 1) = 0" "children (grown_tree ! 1) = []"
    by (simp_all add: grown_tree_def)
  have g5: "(0::nat) < length grown_tree" by (simp add: grown_tree_def)
  have g6: "fst (extend row_game 1 (grown_boards, grown_tree)) = 1"
    using g4 by (simp add: extend_unvisited)
  show ?thesis
    using h1 h2 h3 h4 g1 g2 g3 g4 g6 extend_visited_root reachable_grown select_grown
      extend_spec [OF h1 h2 h3] extend_spec [OF g1 g2 g3]
    by simp
qed

section \<open>The boards of the caller and of the tree are never written\<close>

lemma growsI:
  assumes "prefix bs bs'" and "length ns \<le> length ns'"
    and "\<And>i. i < length ns \<Longrightarrow> now_board (ns' ! i) = now_board (ns ! i)"
  shows "grows (bs, ns) (bs', ns')"
  using assms unfolding grows_def list_all_iff by simp

lemma growsD:
  assumes "grows (bs, ns) (bs', ns')"
  shows "prefix bs bs'" and "length ns \<le> length ns'"
    and "i < length ns \<Longrightarrow> now_board (ns' ! i) = now_board (ns ! i)"
  using assms unfolding grows_def list_all_iff by simp_all

lemma grows_refl: "grows (bs, ns) (bs, ns)"
  by (rule growsI) simp_all

lemma grows_trans:
  assumes "grows (bs, ns) (bs1, ns1)" and "grows (bs1, ns1) (bs2, ns2)"
  shows "grows (bs, ns) (bs2, ns2)"
proof (rule growsI)
  from growsD(1) [OF assms(1)] growsD(1) [OF assms(2)] show "prefix bs bs2"
    by (rule prefix_order.trans)
  from growsD(2) [OF assms(1)] growsD(2) [OF assms(2)] show "length ns \<le> length ns2" by simp
next
  fix i assume i: "i < length ns"
  with growsD(2) [OF assms(1)] have i1: "i < length ns1" by simp
  from growsD(3) [OF assms(2) i1] growsD(3) [OF assms(1) i]
  show "now_board (ns2 ! i) = now_board (ns ! i)" by simp
qed

lemma prefix_nthI:
  assumes "length bs \<le> length bs'" and "\<forall>i < length bs. bs' ! i = bs ! i"
  shows "prefix bs bs'"
proof -
  have "take (length bs) bs' = bs"
    using assms by (intro nth_equalityI) simp_all
  then have "bs' = bs @ drop (length bs) bs'"
    by (metis append_take_drop_id)
  then show ?thesis by (metis prefixI)
qed

lemma stimulate_prefix:
  assumes "stimulate g self n (bs, ns, rnd) = (res, bs', rnd')"
  shows "prefix bs bs'"
  using stimulate_store [OF assms] by (intro prefix_nthI) simp_all


lemma uct_iter_reachable:
  assumes re: "reachable g self (bs, ns, rnd)" and r: "root_node < length ns"
  shows "\<exists>res bs' ns' rnd'.
     uct_iter g self root_node (bs, ns, rnd) = Some (res, bs', ns', rnd') \<and>
     reachable g self (bs', ns', rnd') \<and> grows (bs, ns) (bs', ns')"
proof -
  from reachable_engine_inv [OF re] have inv: "engine_inv bs ns" by simp
  then have ko: "kids_ok ns" and ti: "tree_inv bs ns" unfolding engine_inv_def by blast+
  from select_returns [OF ko r, of "ucb_param self"] obtain sel where
    sel: "select (ucb_param self) ns root_node = Some sel"
    and selv: "\<forall>k. sel = Inr (Some k) \<longrightarrow> k < length ns"
    by blast
  show ?thesis
  proof (cases sel)
    case (Inl e)
    with sel have "uct_iter g self root_node (bs, ns, rnd) = Some (Inl e, bs, ns, rnd)"
      by (simp add: uct_iter_def)
    with re grows_refl show ?thesis by blast
  next
    case (Inr sn)
    show ?thesis
    proof (cases sn)
      case None
      with Inr sel
      have "uct_iter g self root_node (bs, ns, rnd) = Some (Inl AttributeError, bs, ns, rnd)"
        by (simp add: uct_iter_def)
      with re grows_refl show ?thesis by blast
    next
      case (Some k)
      with Inr selv have k: "k < length ns" by simp
      from ti k have kb: "now_board (ns ! k) < length bs" by (simp add: tree_inv_def)
      obtain leaf bs1 ns1 where e: "extend g k (bs, ns) = (leaf, bs1, ns1)"
        by (cases "extend g k (bs, ns)")
      from kids_ok_extend [OF ko k kb e]
      have leaf: "leaf < length ns1" and g1: "grows (bs, ns) (bs1, ns1)"
        by (auto intro: growsI)
      have re1: "reachable g self (bs1, ns1, rnd)" by (rule by_extend [OF re k e])
      obtain res bs2 rnd2 where st: "stimulate g self leaf (bs1, ns1, rnd) = (res, bs2, rnd2)"
        by (cases "stimulate g self leaf (bs1, ns1, rnd)")
      have re2: "reachable g self (bs2, ns1, rnd2)" by (rule by_stimulate [OF re1 leaf st])
      have g2: "grows (bs1, ns1) (bs2, ns1)"
        using stimulate_prefix [OF st] by (intro growsI) simp_all
      show ?thesis
      proof (cases res)
        case (Inl e')
        have "uct_iter g self root_node (bs, ns, rnd) = Some (Inl e', bs2, ns1, rnd2)"
          using sel Inr Some e st Inl by (simp add: uct_iter_def)
        with re2 grows_trans [OF g1 g2] show ?thesis by blast
      next
        case (Inr rw)
        from reachable_engine_inv [OF re2] have "engine_inv bs2 ns1" by simp
        then have ko1: "kids_ok ns1" and po1: "parents_ok ns1"
          unfolding engine_inv_def tree_inv_def by blast+
        from kids_ok_backup [OF ko1 po1 leaf, of self rw] obtain ns2 where
          b: "backup self (Some leaf) rw ns1 = Some ns2" and l2: "length ns2 = length ns1"
          and nb: "\<forall>i < length ns1. now_board (ns2 ! i) = now_board (ns1 ! i)"
          by blast
        have re3: "reachable g self (bs2, ns2, rnd2)" by (rule by_backup [OF re2 leaf b])
        have g3: "grows (bs2, ns1) (bs2, ns2)"
          using l2 nb by (intro growsI) simp_all
        have "uct_iter g self root_node (bs, ns, rnd) = Some (Inr (), bs2, ns2, rnd2)"
          using sel \<open>sel = Inr sn\<close> Some e st Inr b by (simp add: uct_iter_def)
        with re3 grows_trans [OF g1 grows_trans [OF g2 g3]] show ?thesis by blast
      qed
    qed
  qed
qed

lemma uct_loop_reachable:
  "reachable g self (bs, ns, rnd) \<Longrightarrow> root_node < length ns \<Longrightarrow>
   \<exists>res bs' ns' rnd'.
     uct_loop g self k root_node (bs, ns, rnd) = Some (res, bs', ns', rnd') \<and>
     reachable g self (bs', ns', rnd') \<and> grows (bs, ns) (bs', ns')"
proof (induction k arbitrary: bs ns rnd)
  case 0
  have "uct_loop g self 0 root_node (bs, ns, rnd) = Some (Inr (), bs, ns, rnd)" by simp
  with 0 grows_refl show ?case by blast
next
  case (Suc k)
  from uct_iter_reachable [OF Suc.prems] obtain res bs1 ns1 rnd1 where
    it: "uct_iter g self root_node (bs, ns, rnd) = Some (res, bs1, ns1, rnd1)"
    and re1: "reachable g self (bs1, ns1, rnd1)" and g1: "grows (bs, ns) (bs1, ns1)"
    by blast
  show ?case
  proof (cases res)
    case (Inl e)
    with it have "uct_loop g self (Suc k) root_node (bs, ns, rnd) = Some (Inl e, bs1, ns1, rnd1)"
      by simp
    with re1 g1 show ?thesis by blast
  next
    case (Inr u)
    from growsD(2) [OF g1] Suc.prems(2) have r1: "root_node < length ns1" by simp
    from Suc.IH [OF re1 r1] obtain res' bs' ns' rnd' where
      lp: "uct_loop g self k root_node (bs1, ns1, rnd1) = Some (res', bs', ns', rnd')"
      and re': "reachable g self (bs', ns', rnd')" and g': "grows (bs1, ns1) (bs', ns')"
      by blast
    from it Inr lp
    have "uct_loop g self (Suc k) root_node (bs, ns, rnd) = Some (res', bs', ns', rnd')"
      by simp
    with re' grows_trans [OF g1 g'] show ?thesis by blast
  qed
qed

lemma uct_loop_add:
  "uct_loop g self (j + k) root_node s =
     (case uct_loop g self j root_node s of
        None \<Rightarrow> None
      | Some (Inl e, s') \<Rightarrow> Some (Inl e, s')
      | Some (Inr u, s') \<Rightarrow> uct_loop g self k root_node s')"
proof (induction j arbitrary: s)
  case 0
  show ?case by simp
next
  case (Suc j)
  show ?case
  proof (cases "uct_iter g self root_node s")
    case None
    then show ?thesis by simp
  next
    case (Some p)
    obtain res s' where p: "p = (res, s')" by (cases p)
    show ?thesis
    proof (cases res)
      case (Inl e)
      with Some p show ?thesis by simp
    next
      case (Inr u)
      with Some p Suc.IH [of s'] show ?thesis by simp
    qed
  qed
qed

lemma uct_loop_between:
  assumes re: "reachable g self (bs, ns, rnd)" and r: "root_node < length ns"
    and j: "j \<le> m"
    and m: "uct_loop g self m root_node (bs, ns, rnd) = Some (resm, bsm, nsm, rndm)"
  shows "\<exists>res bsj nsj rndj.
     uct_loop g self j root_node (bs, ns, rnd) = Some (res, bsj, nsj, rndj) \<and>
     reachable g self (bsj, nsj, rndj) \<and> grows (bsj, nsj) (bsm, nsm)"
proof -
  from uct_loop_reachable [OF re r, of j] obtain res bsj nsj rndj where
    lj: "uct_loop g self j root_node (bs, ns, rnd) = Some (res, bsj, nsj, rndj)"
    and rej: "reachable g self (bsj, nsj, rndj)" and gj: "grows (bs, ns) (bsj, nsj)"
    by blast
  from j have split: "m = j + (m - j)" by simp
  have "grows (bsj, nsj) (bsm, nsm)"
  proof (cases res)
    case (Inl e)
    from uct_loop_add [of g self j "m - j" root_node "(bs, ns, rnd)"] split lj Inl
    have "uct_loop g self m root_node (bs, ns, rnd) = Some (Inl e, bsj, nsj, rndj)" by simp
    with m have "bsm = bsj" "nsm = nsj" by simp_all
    with grows_refl show ?thesis by simp
  next
    case (Inr u)
    from uct_loop_add [of g self j "m - j" root_node "(bs, ns, rnd)"] split lj Inr
    have e: "uct_loop g self m root_node (bs, ns, rnd) =
        uct_loop g self (m - j) root_node (bsj, nsj, rndj)" by simp
    from growsD(2) [OF gj] r have rj: "root_node < length nsj" by simp
    from uct_loop_reachable [OF rej rj, of "m - j"] e m show ?thesis by auto
  qed
  with lj rej show ?thesis by blast
qed

lemma uct_state:
  assumes "uct_loop g self m root_node s = Some (r, s')"
  shows "\<exists>res. uct g self m root_node s = Some (res, s')"
proof (cases r)
  case (Inl e)
  with assms show ?thesis by (simp add: uct_def)
next
  case (Inr u)
  obtain bs ns rnd where s': "s' = (bs, ns, rnd)" by (cases s')
  show ?thesis
    using assms Inr s'
    by (simp add: uct_def split: sum.split prod.split option.split)
qed

text \<open>
  C10. \<^verbatim>\<open>get_move\<close> returns, and the store of boards after the call begins with the
  store before it: no board that existed when \<^verbatim>\<open>get_move\<close> was called, the caller's
  board among them, has changed. The root stores a new cell, which holds the value of
  the caller's board at the end of the call as well. After each number of passes of the
  loop of \<^verbatim>\<open>uct\<close> the store of that moment is the beginning of the final store, and
  every node of that moment still refers to the same cell with the same board in it.
  Inside a pass: from every state of the engine, \<^verbatim>\<open>extend\<close> and \<^verbatim>\<open>stimulate\<close> on any node
  only add cells to the store and leave the existing ones as they are, and \<^verbatim>\<open>extend\<close>
  and \<^verbatim>\<open>backup\<close> leave the board reference of every existing node as it is.
\<close>

theorem get_move_frame:
  assumes "board < length bs"
  shows "(\<exists>res bs' ns' rnd'.
     get_move g self board (bs, rnd) = Some (res, bs', ns', rnd') \<and>
     prefix bs bs' \<and> bs' ! board = bs ! board \<and>
     now_board (ns' ! 0) = length bs \<and> bs' ! length bs = bs ! board \<and>
     (\<forall>j \<le> max_times self. \<exists>r bsj nsj rndj.
        uct_loop g self j 0
           (bs @ [bs ! board], [Node (length bs) None None (pcolor self)], rnd) =
          Some (r, bsj, nsj, rndj) \<and>
        reachable g self (bsj, nsj, rndj) \<and>
        prefix bsj bs' \<and> length nsj \<le> length ns' \<and>
        (\<forall>i < length nsj.
           now_board (ns' ! i) = now_board (nsj ! i) \<and> now_board (nsj ! i) < length bsj \<and>
           bs' ! now_board (ns' ! i) = bsj ! now_board (nsj ! i)))) \<and>
   (\<forall>bs0 ns0 rnd0 n.
      reachable g self (bs0, ns0, rnd0) \<and> n < length ns0 \<longrightarrow>
        (\<forall>leaf bs1 ns1. extend g n (bs0, ns0) = (leaf, bs1, ns1) \<longrightarrow>
           prefix bs0 bs1 \<and> length ns0 \<le> length ns1 \<and>
           (\<forall>i < length ns0. now_board (ns1 ! i) = now_board (ns0 ! i))) \<and>
        (\<forall>r bs1 rnd1. stimulate g self n (bs0, ns0, rnd0) = (r, bs1, rnd1) \<longrightarrow>
           prefix bs0 bs1) \<and>
        (\<forall>r ns1. backup self (Some n) r ns0 = Some ns1 \<longrightarrow>
           length ns1 = length ns0 \<and>
           (\<forall>i < length ns0. now_board (ns1 ! i) = now_board (ns0 ! i))))"
proof -
  let ?bs1 = "bs @ [bs ! board]"
  let ?ns1 = "[Node (length bs) None None (pcolor self) :: 'b node]"
  have re0: "reachable g self (?bs1, ?ns1, rnd)"
    by (rule fresh_root [OF assms]) (simp add: deepcopy_def)
  have r0: "0 < length ?ns1" by simp
  from uct_loop_reachable [OF re0 r0, of "max_times self"] obtain rm bs' ns' rnd' where
    lm: "uct_loop g self (max_times self) 0 (?bs1, ?ns1, rnd) = Some (rm, bs', ns', rnd')"
    and gm: "grows (?bs1, ?ns1) (bs', ns')"
    by blast
  from uct_state [OF lm] obtain res where
    "uct g self (max_times self) 0 (?bs1, ?ns1, rnd) = Some (res, bs', ns', rnd')" by blast
  then have gmv: "get_move g self board (bs, rnd) = Some (res, bs', ns', rnd')"
    by (simp add: get_move_def deepcopy_def)
  from growsD(1) [OF gm] have p1: "prefix ?bs1 bs'" .
  then have p: "prefix bs bs'" by (meson append_prefixD)
  have nth1: "bs' ! i = ?bs1 ! i" if "i < length ?bs1" for i
    using p1 that by (metis prefix_def nth_append)
  from nth1 [of board] assms have b1: "bs' ! board = bs ! board" by (simp add: nth_append)
  from nth1 [of "length bs"] have b2: "bs' ! length bs = bs ! board" by simp
  from growsD(3) [OF gm, of 0] have b3: "now_board (ns' ! 0) = length bs"
    by (simp add: Node_def)
  have steps: "\<exists>r bsj nsj rndj.
        uct_loop g self j 0 (?bs1, ?ns1, rnd) = Some (r, bsj, nsj, rndj) \<and>
        reachable g self (bsj, nsj, rndj) \<and>
        prefix bsj bs' \<and> length nsj \<le> length ns' \<and>
        (\<forall>i < length nsj.
           now_board (ns' ! i) = now_board (nsj ! i) \<and> now_board (nsj ! i) < length bsj \<and>
           bs' ! now_board (ns' ! i) = bsj ! now_board (nsj ! i))"
    if j: "j \<le> max_times self" for j
  proof -
    from uct_loop_between [OF re0 r0 j lm] obtain r bsj nsj rndj where
      lj: "uct_loop g self j 0 (?bs1, ?ns1, rnd) = Some (r, bsj, nsj, rndj)"
      and rej: "reachable g self (bsj, nsj, rndj)" and gj: "grows (bsj, nsj) (bs', ns')"
      by blast
    from reachable_tree_inv [OF rej] have ti: "tree_inv bsj nsj" by simp
    from growsD(1) [OF gj] have pj: "prefix bsj bs'" .
    have "now_board (ns' ! i) = now_board (nsj ! i) \<and> now_board (nsj ! i) < length bsj \<and>
           bs' ! now_board (ns' ! i) = bsj ! now_board (nsj ! i)" if i: "i < length nsj" for i
    proof -
      from growsD(3) [OF gj i] have 1: "now_board (ns' ! i) = now_board (nsj ! i)" .
      from ti i have 2: "now_board (nsj ! i) < length bsj" by (simp add: tree_inv_def)
      from pj 2 have "bs' ! now_board (nsj ! i) = bsj ! now_board (nsj ! i)"
        by (metis prefix_def nth_append)
      with 1 2 show ?thesis by simp
    qed
    with lj rej pj growsD(2) [OF gj] show ?thesis by blast
  qed
  have ops: "(\<forall>leaf bs1 ns1. extend g n (bs0, ns0) = (leaf, bs1, ns1) \<longrightarrow>
           prefix bs0 bs1 \<and> length ns0 \<le> length ns1 \<and>
           (\<forall>i < length ns0. now_board (ns1 ! i) = now_board (ns0 ! i))) \<and>
        (\<forall>r bs1 rnd1. stimulate g self n (bs0, ns0, rnd0) = (r, bs1, rnd1) \<longrightarrow>
           prefix bs0 bs1) \<and>
        (\<forall>r ns1. backup self (Some n) r ns0 = Some ns1 \<longrightarrow>
           length ns1 = length ns0 \<and>
           (\<forall>i < length ns0. now_board (ns1 ! i) = now_board (ns0 ! i)))"
    if re: "reachable g self (bs0, ns0, rnd0)" and n: "n < length ns0" for bs0 ns0 rnd0 n
  proof -
    from reachable_engine_inv [OF re] have inv: "engine_inv bs0 ns0" by simp
    then have ko: "kids_ok ns0" and ti: "tree_inv bs0 ns0" unfolding engine_inv_def by blast+
    from ti have po: "parents_ok ns0" by (simp add: tree_inv_def)
    from ti n have nb: "now_board (ns0 ! n) < length bs0" by (simp add: tree_inv_def)
    have A: "prefix bs0 bs1 \<and> length ns0 \<le> length ns1 \<and>
           (\<forall>i < length ns0. now_board (ns1 ! i) = now_board (ns0 ! i))"
      if "extend g n (bs0, ns0) = (leaf, bs1, ns1)" for leaf bs1 ns1
      using kids_ok_extend [OF ko n nb that] by blast
    have B: "prefix bs0 bs1" if "stimulate g self n (bs0, ns0, rnd0) = (r, bs1, rnd1)"
      for r bs1 rnd1
      using that by (rule stimulate_prefix)
    have C: "length ns1 = length ns0 \<and>
           (\<forall>i < length ns0. now_board (ns1 ! i) = now_board (ns0 ! i))"
      if "backup self (Some n) r ns0 = Some ns1" for r ns1
      using kids_ok_backup [OF ko po n, of self r] that by auto
    from A B C show ?thesis by blast
  qed
  from gmv p b1 b2 b3 steps ops show ?thesis by blast
qed

lemma pass_row_first_pass:
  "uct_loop row_game (AIPlayer Black) 1 0
     ([pass_row, pass_row], [Node 1 None None Black], zero_draws) =
   Some (Inr (),
         [pass_row, pass_row, [Some White, Some White, Some White, Some White]],
         [\<lparr>visits = 1, reward = 14, now_board = 1, children = [], parent = None, action = None,
            color = Black\<rparr>],
         zero_draws)"
proof -
  let ?ns = "[Node 1 None None Black :: nat node]"
  have sel: "select (ucb_param (AIPlayer Black)) ?ns 0 = Some (Inr (Some 0))"
    by (rule select_leaf) (simp add: Node_def)
  have ext: "extend row_game 0 ([pass_row, pass_row], ?ns) = (0, [pass_row, pass_row], ?ns)"
    by (simp add: extend_unvisited Node_def)
  have st: "stimulate row_game (AIPlayer Black) 0 ([pass_row, pass_row], ?ns, zero_draws) =
     (Inr 14, [pass_row, pass_row, [Some White, Some White, Some White, Some White]], zero_draws)"
    by (simp add: run_defs row_defs pass_row_def)
  have bk: "backup (AIPlayer Black) (Some 0) 14 ?ns =
     Some [\<lparr>visits = 1, reward = 14, now_board = 1, children = [], parent = None, action = None,
            color = Black\<rparr>]"
    by (simp add: backup_Some backup_node_def Node_def AIPlayer_def)
  have it: "uct_iter row_game (AIPlayer Black) 0 ([pass_row, pass_row], ?ns, zero_draws) =
     Some (Inr (),
         [pass_row, pass_row, [Some White, Some White, Some White, Some White]],
         [\<lparr>visits = 1, reward = 14, now_board = 1, children = [], parent = None, action = None,
            color = Black\<rparr>],
         zero_draws)"
    unfolding uct_iter_def
    by (simp only: sel ext st bk prod.case option.case sum.case)
  have "uct_loop row_game (AIPlayer Black) (Suc 0) 0 ([pass_row, pass_row], ?ns, zero_draws) =
     Some (Inr (),
         [pass_row, pass_row, [Some White, Some White, Some White, Some White]],
         [\<lparr>visits = 1, reward = 14, now_board = 1, children = [], parent = None, action = None,
            color = Black\<rparr>],
         zero_draws)"
    by (simp only: uct_loop.simps it prod.case option.case sum.case)
  then show ?thesis by (simp only: One_nat_def)
qed

lemma reachable_visited:
  "reachable row_game (AIPlayer Black)
     ([two_groups_row, two_groups_row], [(Node 1 None None Black)\<lparr>visits := 1, reward := 3\<rparr>],
      zero_draws)"
proof -
  let ?self = "AIPlayer Black"
  have 0: "reachable row_game ?self
     ([two_groups_row, two_groups_row], [Node 1 None None (pcolor ?self)], zero_draws)"
    by (rule fresh_root [where board = 0 and bs = "[two_groups_row]"]) (simp_all add: deepcopy_def)
  have b: "backup ?self (Some 0) 3 [Node 1 None None (pcolor ?self) :: nat node] =
     Some [(Node 1 None None Black)\<lparr>visits := 1, reward := 3\<rparr>]"
    by (simp add: backup_Some backup_node_def Node_def AIPlayer_def)
  show ?thesis
    by (rule by_backup [OF 0 _ b]) simp
qed

lemma extend_grown:
  "extend row_game 0
      ([two_groups_row, two_groups_row], [(Node 1 None None Black)\<lparr>visits := 1, reward := 3\<rparr>]) =
     (1, grown_boards, grown_tree)"
proof -
  have "extend row_game 0
      ([two_groups_row, two_groups_row], [(Node 1 None None Black)\<lparr>visits := 1, reward := 3\<rparr>]) =
     (1,
      [two_groups_row, two_groups_row, after_first,
       [None, Some Black, Some White, None, Some Black, Some Black, Some Black, None]],
      [(Node 1 None None Black)\<lparr>visits := 1, reward := 3, children := [1, 2]\<rparr>,
       Node 2 (Some 0) (Some 3) White, Node 3 (Some 0) (Some 4) White])"
    apply (subst extend_visited)
       apply (simp_all add: Node_def acts_two_groups Let_def upt_conv_Cons opponent_def)
    apply (simp add: row_defs two_groups_row_def after_first_def upt_conv_Cons)
    done
  then show ?thesis by (simp add: grown_boards_def grown_tree_def Node_def)
qed

lemma stimulate_grown:
  "stimulate row_game (AIPlayer Black) 1 (grown_boards, grown_tree, zero_draws) =
     (Inr 0,
      grown_boards @
        [[None, Some Black, Some Black, Some Black, None, Some White, Some White, Some White]],
      zero_draws)"
  by (simp add: run_defs row_defs grown_boards_def grown_tree_def after_first_def two_groups_row_def)

lemma backup_grown:
  "backup (AIPlayer Black) (Some 2) 5 grown_tree =
     Some [\<lparr>visits = 2, reward = 8, now_board = 1, children = [1, 2], parent = None,
              action = None, color = Black\<rparr>,
           \<lparr>visits = 0, reward = 0, now_board = 2, children = [], parent = Some 0,
              action = Some 3, color = White\<rparr>,
           \<lparr>visits = 1, reward = - 5, now_board = 3, children = [], parent = Some 0,
              action = Some 4, color = White\<rparr>]"
  by (simp add: backup_Some backup_node_def grown_tree_def AIPlayer_def)

theorem get_move_frame_witness:
  "(0::nat) < length [pass_row] \<and>
   (\<exists>res bs' ns' rnd'.
      get_move row_game (AIPlayer Black) 0 ([pass_row], zero_draws) = Some (res, bs', ns', rnd') \<and>
      bs' ! 0 = pass_row \<and> bs' ! 1 = pass_row \<and> now_board (ns' ! 0) = 1 \<and>
      bs' ! 2 = [Some White, Some White, Some White, Some White]) \<and>
   (1::nat) \<le> max_times (AIPlayer Black) \<and>
   uct_loop row_game (AIPlayer Black) 1 0
     ([pass_row] @ [[pass_row] ! 0], [Node (length [pass_row]) None None (pcolor (AIPlayer Black))],
      zero_draws) =
     Some (Inr (),
         [pass_row, pass_row, [Some White, Some White, Some White, Some White]],
         [\<lparr>visits = 1, reward = 14, now_board = 1, children = [], parent = None, action = None,
            color = Black\<rparr>],
         zero_draws) \<and>
   reachable row_game (AIPlayer Black)
     ([two_groups_row, two_groups_row], [(Node 1 None None Black)\<lparr>visits := 1, reward := 3\<rparr>],
      zero_draws) \<and>
   extend row_game 0
      ([two_groups_row, two_groups_row], [(Node 1 None None Black)\<lparr>visits := 1, reward := 3\<rparr>]) =
     (1, grown_boards, grown_tree) \<and>
   prefix [two_groups_row, two_groups_row] grown_boards \<and>
   now_board (grown_tree ! 0) = 1 \<and>
   reachable row_game (AIPlayer Black) (grown_boards, grown_tree, zero_draws) \<and>
   (2::nat) < length grown_tree \<and>
   stimulate row_game (AIPlayer Black) 1 (grown_boards, grown_tree, zero_draws) =
     (Inr 0,
      grown_boards @
        [[None, Some Black, Some Black, Some Black, None, Some White, Some White, Some White]],
      zero_draws) \<and>
   backup (AIPlayer Black) (Some 2) 5 grown_tree =
     Some [\<lparr>visits = 2, reward = 8, now_board = 1, children = [1, 2], parent = None,
              action = None, color = Black\<rparr>,
           \<lparr>visits = 0, reward = 0, now_board = 2, children = [], parent = Some 0,
              action = Some 3, color = White\<rparr>,
           \<lparr>visits = 1, reward = - 5, now_board = 3, children = [], parent = Some 0,
              action = Some 4, color = White\<rparr>]"
proof -
  have h: "(0::nat) < length [pass_row]" by simp
  have m: "(1::nat) \<le> max_times (AIPlayer Black)" by (simp add: AIPlayer_def)
  have lp: "uct_loop row_game (AIPlayer Black) 1 0
     ([pass_row] @ [[pass_row] ! 0], [Node (length [pass_row]) None None (pcolor (AIPlayer Black))],
      zero_draws) =
     Some (Inr (),
         [pass_row, pass_row, [Some White, Some White, Some White, Some White]],
         [\<lparr>visits = 1, reward = 14, now_board = 1, children = [], parent = None, action = None,
            color = Black\<rparr>],
         zero_draws)"
    using pass_row_first_pass by (simp add: AIPlayer_def)
  from get_move_frame [OF h, of row_game "AIPlayer Black" zero_draws, THEN conjunct1]
  obtain res bs' ns' rnd' where
    gm: "get_move row_game (AIPlayer Black) 0 ([pass_row], zero_draws) = Some (res, bs', ns', rnd')"
    and b0: "bs' ! 0 = [pass_row] ! 0" and root: "now_board (ns' ! 0) = length [pass_row]"
    and b1: "bs' ! length [pass_row] = [pass_row] ! 0"
    and steps: "\<forall>j \<le> max_times (AIPlayer Black). \<exists>r bsj nsj rndj.
        uct_loop row_game (AIPlayer Black) j 0
           ([pass_row] @ [[pass_row] ! 0],
            [Node (length [pass_row]) None None (pcolor (AIPlayer Black))], zero_draws) =
          Some (r, bsj, nsj, rndj) \<and>
        reachable row_game (AIPlayer Black) (bsj, nsj, rndj) \<and>
        prefix bsj bs' \<and> length nsj \<le> length ns' \<and>
        (\<forall>i < length nsj.
           now_board (ns' ! i) = now_board (nsj ! i) \<and> now_board (nsj ! i) < length bsj \<and>
           bs' ! now_board (ns' ! i) = bsj ! now_board (nsj ! i))"
    by (elim exE conjE) (rule that, assumption+)
  from steps [rule_format, OF m] obtain r bsj nsj rndj where
    lj: "uct_loop row_game (AIPlayer Black) 1 0
           ([pass_row] @ [[pass_row] ! 0],
            [Node (length [pass_row]) None None (pcolor (AIPlayer Black))], zero_draws) =
          Some (r, bsj, nsj, rndj)"
    and pj: "prefix bsj bs'"
    by (elim exE conjE) (rule that, assumption+)
  from lj [unfolded lp]
  have "bsj = [pass_row, pass_row, [Some White, Some White, Some White, Some White]]"
    by (simp only: option.inject prod.inject)
  with pj have "prefix [pass_row, pass_row, [Some White, Some White, Some White, Some White]] bs'"
    by (simp only:)
  then obtain zs where
    "bs' = [pass_row, pass_row, [Some White, Some White, Some White, Some White]] @ zs"
    by (rule prefixE)
  then have b2: "bs' ! 2 = [Some White, Some White, Some White, Some White]"
    by simp
  from gm b0 b1 root b2
  have A: "\<exists>res bs' ns' rnd'.
      get_move row_game (AIPlayer Black) 0 ([pass_row], zero_draws) = Some (res, bs', ns', rnd') \<and>
      bs' ! 0 = pass_row \<and> bs' ! 1 = pass_row \<and> now_board (ns' ! 0) = 1 \<and>
      bs' ! 2 = [Some White, Some White, Some White, Some White]"
    by simp
  have p: "prefix [two_groups_row, two_groups_row] grown_boards"
    by (simp add: grown_boards_def)
  have n: "now_board (grown_tree ! 0) = 1" "(2::nat) < length grown_tree"
    by (simp_all add: grown_tree_def)
  show ?thesis
    by (intro conjI h A m lp reachable_visited extend_grown p n reachable_grown stimulate_grown
          backup_grown)
qed

end
